theory Spec2Isabelle
  imports Complex_Main
begin

section \<open>Decimal strings of a bigint\<close>

text \<open>
  \<^verbatim>\<open>convertToDecimal\<close> passes the raw amount to the decimal library as text:
  \<^verbatim>\<open>new BigNumber(amount.toString())\<close>. Both halves are modelled: the printing of a
  bigint in base ten, and the reading of a decimal literal by the constructor.
\<close>

definition digit_char :: "nat \<Rightarrow> char" where
  "digit_char d = ''0123456789'' ! d"

definition is_digit :: "char \<Rightarrow> bool" where
  "is_digit c = (48 \<le> (of_char c :: nat) \<and> (of_char c :: nat) \<le> 57)"

definition digit_val :: "char \<Rightarrow> nat" where
  "digit_val c = of_char c - 48"

function nat_digits :: "nat \<Rightarrow> string" where
  "nat_digits n = (if n < 10 then [digit_char n] else nat_digits (n div 10) @ [digit_char (n mod 10)])"
  by pat_completeness auto
termination
  by (relation "measure id") auto

declare nat_digits.simps [simp del]

text \<open>\<^verbatim>\<open>BigInt.prototype.toString()\<close>: a minus sign for a negative value, then the digits.\<close>

definition bigint_toString :: "int \<Rightarrow> string" where
  "bigint_toString i = (if i < 0 then CHR ''-'' # nat_digits (nat (- i)) else nat_digits (nat i))"

definition digits_val :: "string \<Rightarrow> nat" where
  "digits_val s = foldl (\<lambda>a c. 10 * a + digit_val c) 0 s"

section \<open>The BigNumber values the program builds\<close>

text \<open>
  A finite BigNumber is a decimal: an integer coefficient and a power of ten,
  \<open>BN c e\<close> standing for \<open>c * 10^e\<close>. The library also has NaN and the two infinities.
  The library's configuration (its exponent range and its DEBUG switch) is never changed
  by the program and is not part of the model: finite values are exact decimals.
\<close>

datatype BigNumber = BN int int | BigNaN | BigInfinity bool

fun bn_val :: "BigNumber \<Rightarrow> rat option" where
  "bn_val (BN c e) = Some (of_int c * 10 powi e)"
| "bn_val BigNaN = None"
| "bn_val (BigInfinity neg) = None"

text \<open>
  The exponent part of a literal, after the letter e: an optional sign and at least one
  digit. The argument is what follows the mantissa, the letter included; an empty
  argument is a literal without exponent.
\<close>

fun parse_exponent :: "string \<Rightarrow> int option" where
  "parse_exponent [] = Some 0"
| "parse_exponent (l # r) =
     (let neg = (r \<noteq> [] \<and> hd r = CHR ''-'');
          ds = (if r \<noteq> [] \<and> (hd r = CHR ''-'' \<or> hd r = CHR ''+'') then tl r else r)
      in if ds \<noteq> [] \<and> list_all is_digit ds
         then Some (if neg then - int (digits_val ds) else int (digits_val ds))
         else None)"

text \<open>
  The unsigned decimal literals the constructor accepts: digits with an optional
  fraction, or a fraction alone, then an optional exponent. The result is the coefficient
  (all the digits read as one integer) and the power of ten.
\<close>

definition parse_decimal :: "string \<Rightarrow> (int \<times> int) option" where
  "parse_decimal s =
     (let mant = takeWhile (\<lambda>c. c \<noteq> CHR ''e'' \<and> c \<noteq> CHR ''E'') s;
          expo = dropWhile (\<lambda>c. c \<noteq> CHR ''e'' \<and> c \<noteq> CHR ''E'') s;
          ip = takeWhile (\<lambda>c. c \<noteq> CHR ''.'') mant;
          dotfp = dropWhile (\<lambda>c. c \<noteq> CHR ''.'') mant;
          fp = tl dotfp
      in if list_all is_digit ip \<and> list_all is_digit fp \<and>
            (if dotfp = [] then ip \<noteq> [] else ip \<noteq> [] \<or> fp \<noteq> [])
         then (case parse_exponent expo of
                 None \<Rightarrow> None
               | Some x \<Rightarrow> Some (int (digits_val (ip @ fp)), x - int (length fp)))
         else None)"

text \<open>
  \<^verbatim>\<open>new BigNumber(str)\<close> on a string. Literals with a radix prefix, which
  \<^verbatim>\<open>toString\<close> never prints, are not modelled apart: they read as NaN here.
\<close>

definition new_BigNumber :: "string \<Rightarrow> BigNumber" where
  "new_BigNumber str =
     (let neg = (str \<noteq> [] \<and> hd str = CHR ''-'');
          body = (if neg then tl str else str)
      in case parse_decimal body of
           Some (c, e) \<Rightarrow> BN (if neg then - c else c) e
         | None \<Rightarrow> if body = ''Infinity'' then BigInfinity neg
                    else BigNaN)"

text \<open>\<^verbatim>\<open>shiftedBy(k)\<close> moves the decimal point: the value times \<open>10^k\<close>, exactly.\<close>

fun shiftedBy :: "BigNumber \<Rightarrow> int \<Rightarrow> BigNumber" where
  "shiftedBy (BN c e) k = BN c (e + k)"
| "shiftedBy BigNaN k = BigNaN"
| "shiftedBy (BigInfinity neg) k = BigInfinity neg"

text \<open>
  The helper of the tracker:
  \<^verbatim>\<open>return new BigNumber(amount.toString()).shiftedBy(-decimals);\<close>
  Every call site passes the bigint supply of the mint.
\<close>

definition convertToDecimal :: "int \<Rightarrow> int \<Rightarrow> BigNumber" where
  "convertToDecimal amount decimals = shiftedBy (new_BigNumber (bigint_toString amount)) (- decimals)"

section \<open>Formatting\<close>

text \<open>
  \<^verbatim>\<open>toFormat()\<close> without arguments prints in fixed notation with the library's default
  format: groups of three integer digits separated by commas, a point before the
  fraction, the fraction not grouped, no trailing zeros.
\<close>

fun chunks3 :: "string \<Rightarrow> string" where
  "chunks3 (a # b # c # r) = CHR '','' # a # b # c # chunks3 r"
| "chunks3 r = []"

definition group_int :: "string \<Rightarrow> string" where
  "group_int ds =
     (let len = length ds; i = (if len mod 3 = 0 then 3 else len mod 3)
      in take i ds @ chunks3 (drop i ds))"

definition fraction_digits :: "nat \<Rightarrow> nat \<Rightarrow> string" where
  "fraction_digits width f =
     (let ds = nat_digits f;
          padded = replicate (width - length ds) CHR ''0'' @ ds
      in rev (dropWhile (\<lambda>c. c = CHR ''0'') (rev padded)))"

fun toFormat :: "BigNumber \<Rightarrow> string" where
  "toFormat (BN c e) =
     (let a = nat \<bar>c\<bar>;
          p = 10 ^ nat (- e);
          ip = (if 0 \<le> e then nat_digits (a * 10 ^ nat e) else nat_digits (a div p));
          fr = (if 0 \<le> e then [] else fraction_digits (nat (- e)) (a mod p))
      in (if c < 0 then ''-'' else []) @ group_int ip @ (if fr = [] then [] else CHR ''.'' # fr))"
| "toFormat BigNaN = ''NaN''"
| "toFormat (BigInfinity neg) = (if neg then ''-Infinity'' else ''Infinity'')"

section \<open>Native numbers\<close>

text \<open>
  The price, the market capitalisation and the overview figures are native numbers:
  IEEE 754 doubles. A finite double is kept as the rational it denotes (the two zeros
  are one value here); NaN and the infinities are apart. Rounding to a double is to the
  nearest one with 53 significant bits, ties to the even significand, with gradual
  underflow below \<open>2^-1022\<close> and overflow to infinity from \<open>2^1024\<close>.
\<close>

datatype number = Num rat | NaN | Infinity bool

fun truthy_number :: "number \<Rightarrow> bool" where
  "truthy_number (Num q) = (q \<noteq> 0)"
| "truthy_number NaN = False"
| "truthy_number (Infinity neg) = True"

fun negate_number :: "number \<Rightarrow> number" where
  "negate_number (Num q) = Num (- q)"
| "negate_number NaN = NaN"
| "negate_number (Infinity neg) = Infinity (\<not> neg)"

text \<open>The number of digits of a positive integer \<open>n\<close> in base \<open>b\<close>.\<close>

function numlen :: "int \<Rightarrow> int \<Rightarrow> int" where
  "numlen b n = (if n < b \<or> b < 2 then 1 else 1 + numlen b (n div b))"
  by pat_completeness auto
termination
proof (relation "measure (\<lambda>(b, n). nat n)")
  show "wf (measure (\<lambda>(b, n). nat n))" by simp
next
  fix b n :: int
  assume a: "\<not> (n < b \<or> b < 2)"
  then have "n div b < n" by (intro int_div_less_self) auto
  with a show "((b, n div b), (b, n)) \<in> measure (\<lambda>(b, n). nat n)" by simp
qed

declare numlen.simps [simp del]

text \<open>The integer quotient \<open>n / d\<close> rounded to the nearest integer, a tie to the even one.\<close>

definition round_half_even_div :: "int \<Rightarrow> int \<Rightarrow> int" where
  "round_half_even_div n d =
     (let q = n div d; r = n mod d
      in if 2 * r < d then q else if d < 2 * r then q + 1 else if even q then q else q + 1)"

text \<open>The integer \<open>g\<close> with \<open>b^g \<le> n / d < b^(g+1)\<close>, for positive \<open>n\<close> and \<open>d\<close>.\<close>

definition floor_log :: "int \<Rightarrow> int \<Rightarrow> int \<Rightarrow> int" where
  "floor_log b n d =
     (let g = numlen b n - numlen b d
      in if (if 0 \<le> g then b ^ nat g * d \<le> n else d \<le> n * b ^ nat (- g)) then g else g - 1)"

text \<open>The defining test of \<open>floor_log\<close>, over the rationals: \<open>b^g \<le> n / d\<close>.\<close>

definition below :: "int \<Rightarrow> int \<Rightarrow> int \<Rightarrow> int \<Rightarrow> bool" where
  "below b n d g = ((of_int b :: rat) powi g * of_int d \<le> of_int n)"

text \<open>The double nearest to \<open>n / d\<close>, for positive \<open>n\<close> and \<open>d\<close>.\<close>

definition round_ratio :: "int \<Rightarrow> int \<Rightarrow> number" where
  "round_ratio n d =
     (let u = max (floor_log 2 n d - 52) (- 1074);
          m = (if 0 \<le> u then round_half_even_div n (d * 2 ^ nat u)
               else round_half_even_div (n * 2 ^ nat (- u)) d)
      in if 0 \<le> u \<and> 2 ^ 1024 \<le> m * 2 ^ nat u then Infinity False
         else Num (of_int m * 2 powi u))"

text \<open>The double nearest to the decimal \<open>c * 10^e\<close>, for positive \<open>c\<close>.\<close>

definition round_decimal :: "int \<Rightarrow> int \<Rightarrow> number" where
  "round_decimal c e =
     (if 0 \<le> e then round_ratio (c * 10 ^ nat e) 1 else round_ratio c (10 ^ nat (- e)))"

text \<open>Half of the smallest positive double, the rounding error allowed next to zero.\<close>

definition half_denorm_min :: rat where
  "half_denorm_min = 2 powi (- 1074) / 2"

text \<open>
  \<^verbatim>\<open>toNumber()\<close> is the unary plus of the printed decimal: the nearest double.
\<close>

fun toNumber :: "BigNumber \<Rightarrow> number" where
  "toNumber (BN c e) =
     (if c = 0 then Num 0
      else if c < 0 then negate_number (round_decimal (- c) e)
      else round_decimal c e)"
| "toNumber BigNaN = NaN"
| "toNumber (BigInfinity neg) = Infinity neg"

text \<open>
  The finite doubles, written out as numbers: the rationals \<open>K * 2^V\<close> with a significand
  \<open>K\<close> below \<open>2^53\<close> in magnitude and an exponent \<open>V\<close> from \<open>-1074\<close> to \<open>971\<close>. A nearest
  double to \<open>x\<close> is a finite double that no finite double beats. A value of magnitude
  \<open>2^1024 - 2^970\<close> or more, half a step above the largest finite double, has no finite
  nearest double in IEEE 754: it rounds to an infinity.
\<close>

definition finite_double :: "rat \<Rightarrow> bool" where
  "finite_double z = (\<exists>K V. \<bar>K\<bar> < 2 ^ 53 \<and> - 1074 \<le> V \<and> V \<le> 971 \<and> z = of_int K * 2 powi V)"

definition nearest_double :: "rat \<Rightarrow> rat \<Rightarrow> bool" where
  "nearest_double x y = (finite_double y \<and> (\<forall>z. finite_double z \<longrightarrow> \<bar>y - x\<bar> \<le> \<bar>z - x\<bar>))"

definition overflow_threshold :: rat where
  "overflow_threshold = 2 ^ 1024 - 2 ^ 970"

text \<open>
  The constructor on a native number reads \<^verbatim>\<open>String(v)\<close>, the shortest decimal that
  rounds back to the double \<open>v\<close>. For the positive double \<open>n / d\<close> and a digit count
  \<open>k\<close>, \<open>candidates\<close> gives the \<open>k\<close>-digit decimal that rounds back to it, the closer one
  (the even one at a tie) when the decimal below and the decimal above both do.
\<close>

definition candidates :: "int \<Rightarrow> int \<Rightarrow> int \<Rightarrow> (int \<times> int) list" where
  "candidates n d k =
     (let x = floor_log 10 n d - k + 1;
          s = (if 0 \<le> x then n div (d * 10 ^ nat x) else (n * 10 ^ nat (- x)) div d);
          ok = filter (\<lambda>s. round_decimal s x = Num (of_int n / of_int d)) [s, s + 1]
      in case ok of
           [lo, hi] \<Rightarrow>
             (if (if 0 \<le> x
                  then (lo + hi) * 10 ^ nat x * d < 2 * n \<or>
                       ((lo + hi) * 10 ^ nat x * d = 2 * n \<and> odd lo)
                  else (lo + hi) * d < 2 * n * 10 ^ nat (- x) \<or>
                       ((lo + hi) * d = 2 * n * 10 ^ nat (- x) \<and> odd lo))
              then [(hi, x)] else [(lo, x)])
         | _ \<Rightarrow> map (\<lambda>s. (s, x)) ok)"

fun shortest_from :: "int \<Rightarrow> int \<Rightarrow> int list \<Rightarrow> (int \<times> int) option" where
  "shortest_from n d [] = None"
| "shortest_from n d (k # ks) =
     (case candidates n d k of sx # _ \<Rightarrow> Some sx | [] \<Rightarrow> shortest_from n d ks)"

text \<open>Seventeen digits tell any two doubles apart, so the search ends there.\<close>

definition shortest_decimal :: "rat \<Rightarrow> int \<times> int" where
  "shortest_decimal a =
     (let (n, d) = quotient_of a
      in case shortest_from n d [1, 2, 3, 4, 5, 6, 7, 8, 9, 10, 11, 12, 13, 14, 15, 16, 17] of
           Some sx \<Rightarrow> sx
         | None \<Rightarrow> (n, 0))"

fun BigNumber_of_number :: "number \<Rightarrow> BigNumber" where
  "BigNumber_of_number (Num q) =
     (if q = 0 then BN 0 0
      else let (s, x) = shortest_decimal \<bar>q\<bar> in BN (if q < 0 then - s else s) x)"
| "BigNumber_of_number NaN = BigNaN"
| "BigNumber_of_number (Infinity neg) = BigInfinity neg"

text \<open>
  \<^verbatim>\<open>x.multipliedBy(y)\<close>: the product of two decimals is exact; NaN absorbs, and an
  infinity times zero is NaN.
\<close>

fun times_big :: "BigNumber \<Rightarrow> BigNumber \<Rightarrow> BigNumber" where
  "times_big (BN c1 e1) (BN c2 e2) = BN (c1 * c2) (e1 + e2)"
| "times_big BigNaN y = BigNaN"
| "times_big x BigNaN = BigNaN"
| "times_big (BigInfinity neg) (BN c e) = (if c = 0 then BigNaN else BigInfinity (neg \<noteq> (c < 0)))"
| "times_big (BN c e) (BigInfinity neg) = (if c = 0 then BigNaN else BigInfinity (neg \<noteq> (c < 0)))"
| "times_big (BigInfinity n1) (BigInfinity n2) = BigInfinity (n1 \<noteq> n2)"

definition multipliedBy :: "BigNumber \<Rightarrow> number \<Rightarrow> BigNumber" where
  "multipliedBy x y = times_big x (BigNumber_of_number y)"

section \<open>The outside world\<close>

text \<open>
  Everything \<^verbatim>\<open>getTokenDetails\<close> learns comes from four outside parties: the address
  check of \<^verbatim>\<open>new PublicKey\<close>, the ledger (\<^verbatim>\<open>getMint\<close>), the Metaplex client
  (\<^verbatim>\<open>findByMint\<close>) and HTTP (\<^verbatim>\<open>axios.get\<close>). A world fixes what each of them answers.
  A call that throws or rejects answers \<open>None\<close> or \<open>Rejected\<close>. What is read from a
  response is kept at the type the program declares for the variable it goes to
  (\<^verbatim>\<open>string | undefined\<close>, \<^verbatim>\<open>number | undefined\<close>), \<open>None\<close> being \<^verbatim>\<open>undefined\<close>.
\<close>

record Mint =
  mint_decimals :: int
  mint_supply :: int
  mint_mintAuthority :: "string option"
  mint_freezeAuthority :: "string option"

record Nft =
  nft_name :: string
  nft_symbol :: string
  nft_uri :: string

text \<open>The off-chain document, as far as it is read: \<^verbatim>\<open>data.image\<close>, \<^verbatim>\<open>data.name\<close>, \<^verbatim>\<open>data.symbol\<close>.\<close>

record OffchainJson =
  json_image :: "string option"
  json_name :: "string option"
  json_symbol :: "string option"

text \<open>The overview, as far as it is read: the three fields under \<^verbatim>\<open>data?.data\<close>.\<close>

record Overview =
  overview_liquidity :: "number option"
  overview_holders :: "number option"
  overview_volume24h :: "number option"

datatype 'a response = Rejected | Resolved 'a

text \<open>
  The body of the off-chain response is \<open>None\<close> when \<^verbatim>\<open>response.data\<close> is null or
  undefined, so that reading \<^verbatim>\<open>.image\<close> from it raises. A body that is not a JSON
  object (text that did not parse, a number) has no properties: all three fields are
  \<open>None\<close>. The price response carries \<^verbatim>\<open>data?.data?.value\<close>.
\<close>

record world =
  PublicKey_valid :: "string \<Rightarrow> bool"
  getMint :: "string \<Rightarrow> Mint option"
  findByMint :: "string \<Rightarrow> Nft option"
  get_metadata_json :: "string \<Rightarrow> OffchainJson option response"
  get_price :: "string \<Rightarrow> number option response"
  get_overview :: "string \<Rightarrow> Overview response"

text \<open>The network calls a run issues, in order.\<close>

datatype call = RpcGetMint string | RpcFindByMint string | HttpGet string

section \<open>The tracker\<close>

record TokenDetails =
  address :: string
  name :: "string option"
  symbol :: "string option"
  imageURL :: "string option"
  decimals :: int
  totalSupply :: string
  totalSupplyRaw :: int
  mintAuthority :: "string option"
  freezeAuthority :: "string option"
  price :: "number option"
  marketcCap :: "number option"
  liquidityUsd :: "number option"
  holders :: "number option"
  volume24h :: "number option"

text \<open>Truthiness of a \<^verbatim>\<open>string | undefined\<close> and of a \<^verbatim>\<open>number | undefined\<close>.\<close>

fun truthy_string :: "string option \<Rightarrow> bool" where
  "truthy_string None = False"
| "truthy_string (Some s) = (s \<noteq> [])"

fun truthy :: "number option \<Rightarrow> bool" where
  "truthy None = False"
| "truthy (Some n) = truthy_number n"

text \<open>\<^verbatim>\<open>a || b\<close> on strings.\<close>

definition or_else :: "string option \<Rightarrow> string option \<Rightarrow> string option" where
  "or_else a b = (if truthy_string a then a else b)"

text \<open>
  Step 2 of \<^verbatim>\<open>getTokenDetails\<close>, the inner \<^verbatim>\<open>try\<close> around the Metaplex lookup and the
  JSON fetch nested in it. It gives \<^verbatim>\<open>tokenName\<close>, \<^verbatim>\<open>tokenSymbol\<close> and \<^verbatim>\<open>tokenImageURL\<close>
  as they stand after the block, and the calls made. The three variables start
  undefined; a rejected lookup leaves them so; a rejected fetch, or a body that
  cannot be read, leaves what the lookup assigned.
\<close>

definition metadata_step ::
  "world \<Rightarrow> string \<Rightarrow> (string option \<times> string option \<times> string option) \<times> call list" where
  "metadata_step w mintAddress =
     (case findByMint w mintAddress of
        None \<Rightarrow> ((None, None, None), [RpcFindByMint mintAddress])
      | Some nftOrToken \<Rightarrow>
          (let tokenName = Some (nft_name nftOrToken);
               tokenSymbol = Some (nft_symbol nftOrToken);
               metadataUri = nft_uri nftOrToken
           in if metadataUri \<noteq> []
              then (case get_metadata_json w metadataUri of
                      Rejected \<Rightarrow>
                        ((tokenName, tokenSymbol, None), [RpcFindByMint mintAddress, HttpGet metadataUri])
                    | Resolved None \<Rightarrow>
                        ((tokenName, tokenSymbol, None), [RpcFindByMint mintAddress, HttpGet metadataUri])
                    | Resolved (Some data) \<Rightarrow>
                        ((if \<not> truthy_string tokenName \<and> truthy_string (json_name data)
                          then json_name data else tokenName,
                          if \<not> truthy_string tokenSymbol \<and> truthy_string (json_symbol data)
                          then json_symbol data else tokenSymbol,
                          json_image data),
                         [RpcFindByMint mintAddress, HttpGet metadataUri]))
              else ((tokenName, tokenSymbol, None), [RpcFindByMint mintAddress])))"

definition price_endpoint :: "string \<Rightarrow> string" where
  "price_endpoint mintAddress = ''https://public-api.birdeye.so/defi/price?address='' @ mintAddress"

definition overview_endpoint :: "string \<Rightarrow> string" where
  "overview_endpoint mintAddress =
     ''https://public-api.birdeye.so/defi/token_overview?address='' @ mintAddress"

text \<open>
  The price fetch: \<^verbatim>\<open>price\<close> is assigned only when the response came and
  \<^verbatim>\<open>data?.data?.value\<close> is truthy.
\<close>

definition price_step :: "world \<Rightarrow> string \<Rightarrow> number option" where
  "price_step w mintAddress =
     (case get_price w (price_endpoint mintAddress) of
        Rejected \<Rightarrow> None
      | Resolved v \<Rightarrow> if truthy v then v else None)"

text \<open>
  The market capitalisation:
  \<^verbatim>\<open>if (price !== undefined) marketCap = convertToDecimal(totalSupplyRaw, decimals).multipliedBy(price).toNumber();\<close>
\<close>

definition marketCap_step :: "number option \<Rightarrow> int \<Rightarrow> int \<Rightarrow> number option" where
  "marketCap_step price' totalSupplyRaw' decimals' =
     (case price' of
        None \<Rightarrow> None
      | Some p \<Rightarrow> Some (toNumber (multipliedBy (convertToDecimal totalSupplyRaw' decimals') p)))"

text \<open>The overview fetch: three assignments when the response came, none otherwise.\<close>

definition overview_step :: "world \<Rightarrow> string \<Rightarrow> number option \<times> number option \<times> number option" where
  "overview_step w mintAddress =
     (case get_overview w (overview_endpoint mintAddress) of
        Rejected \<Rightarrow> (None, None, None)
      | Resolved data \<Rightarrow> (overview_liquidity data, overview_holders data, overview_volume24h data))"

text \<open>
  \<^verbatim>\<open>getTokenDetails\<close>. The outer \<^verbatim>\<open>try\<close> turns a throwing \<^verbatim>\<open>new PublicKey\<close> and a
  rejected \<^verbatim>\<open>getMint\<close> into the result \<^verbatim>\<open>null\<close>; nothing after the mint lookup throws
  past its own \<^verbatim>\<open>catch\<close>. The result comes with the network calls made.
\<close>

definition getTokenDetails :: "world \<Rightarrow> string \<Rightarrow> TokenDetails option \<times> call list" where
  "getTokenDetails w mintAddress =
     (if \<not> PublicKey_valid w mintAddress then (None, [])
      else case getMint w mintAddress of
        None \<Rightarrow> (None, [RpcGetMint mintAddress])
      | Some mintInfo \<Rightarrow>
          (let decimals' = mint_decimals mintInfo;
               totalSupplyRaw' = mint_supply mintInfo;
               totalSupplyFormatted = toFormat (convertToDecimal totalSupplyRaw' decimals');
               ((tokenName, tokenSymbol, tokenImageURL), metadata_calls) = metadata_step w mintAddress;
               price' = price_step w mintAddress;
               marketCap = marketCap_step price' totalSupplyRaw' decimals';
               (liquidityUsd', holders', volume24h') = overview_step w mintAddress
           in (Some \<lparr> address = mintAddress,
                       name = or_else tokenName (Some ''N?A''),
                       symbol = or_else tokenSymbol (Some ''N/A''),
                       imageURL = tokenImageURL,
                       decimals = decimals',
                       totalSupply = totalSupplyFormatted,
                       totalSupplyRaw = totalSupplyRaw',
                       mintAuthority = or_else (mint_mintAuthority mintInfo) None,
                       freezeAuthority = or_else (mint_freezeAuthority mintInfo) None,
                       price = price',
                       marketcCap = marketCap,
                       liquidityUsd = liquidityUsd',
                       holders = holders',
                       volume24h = volume24h' \<rparr>,
               [RpcGetMint mintAddress] @ metadata_calls @
               [HttpGet (price_endpoint mintAddress), HttpGet (overview_endpoint mintAddress)])))"

text \<open>
  \<^verbatim>\<open>main\<close>, on \<^verbatim>\<open>process.argv[2]\<close>: exit code 1 without an address or with one that
  \<^verbatim>\<open>new PublicKey\<close> refuses, otherwise the details or the message that none were found.
\<close>

datatype outcome = Exit1 | Details TokenDetails | NoDetails

definition main :: "world \<Rightarrow> string option \<Rightarrow> outcome \<times> call list" where
  "main w argv2 =
     (case argv2 of
        None \<Rightarrow> (Exit1, [])
      | Some tokenAddress \<Rightarrow>
          if tokenAddress = [] then (Exit1, [])
          else if \<not> PublicKey_valid w tokenAddress then (Exit1, [])
          else (case getTokenDetails w tokenAddress of
                  (None, calls) \<Rightarrow> (NoDetails, calls)
                | (Some tokenDetails, calls) \<Rightarrow> (Details tokenDetails, calls)))"

section \<open>Sample runs\<close>

text \<open>
  A mint with six decimals and a raw supply of \<open>10^12\<close>, and a world in which every
  party answers for the address MINT; the other worlds change one answer each.
\<close>

definition sample_mint :: Mint where
  "sample_mint = \<lparr> mint_decimals = 6, mint_supply = 1000000000000,
                    mint_mintAuthority = None, mint_freezeAuthority = None \<rparr>"

definition sample_world :: world where
  "sample_world =
     \<lparr> PublicKey_valid = (\<lambda>a. a = ''MINT''),
       getMint = (\<lambda>a. Some sample_mint),
       findByMint = (\<lambda>a. Some \<lparr> nft_name = ''Token'', nft_symbol = ''TKN'',
                                  nft_uri = ''https://example.org/t.json'' \<rparr>),
       get_metadata_json = (\<lambda>u. Resolved (Some \<lparr> json_image = Some ''https://example.org/t.png'',
                                                   json_name = Some ''Offchain'',
                                                   json_symbol = Some ''OFF'' \<rparr>)),
       get_price = (\<lambda>u. Resolved (Some (Num (5 / 2)))),
       get_overview = (\<lambda>u. Resolved \<lparr> overview_liquidity = Some (Num 1000),
                                        overview_holders = None,
                                        overview_volume24h = Some (Num 250) \<rparr>) \<rparr>"

text \<open>The ledger has no mint account; metadata and market data are still on offer.\<close>

definition mintless_world :: world where
  "mintless_world = sample_world \<lparr> getMint := (\<lambda>a. None) \<rparr>"

text \<open>A supply of \<open>2^53 + 1\<close> indivisible tokens, at the price 1.\<close>

definition odd_supply_world :: world where
  "odd_supply_world = sample_world
     \<lparr> getMint := (\<lambda>a. Some (sample_mint \<lparr> mint_decimals := 0,
                                               mint_supply := 9007199254740993 \<rparr>)),
       get_price := (\<lambda>u. Resolved (Some (Num 1))) \<rparr>"


text \<open>
  A hundred indivisible tokens at the price \<^verbatim>\<open>1e308\<close>, the double
  \<open>5010420900022432 * 2^971\<close>.
\<close>

definition overflow_world :: world where
  "overflow_world = sample_world
     \<lparr> getMint := (\<lambda>a. Some (sample_mint \<lparr> mint_decimals := 0, mint_supply := 100 \<rparr>)),
       get_price := (\<lambda>u. Resolved (Some (Num (5010420900022432 * 2 ^ 971)))) \<rparr>"


text \<open>No Metaplex record.\<close>

definition no_metadata_world :: world where
  "no_metadata_world = sample_world \<lparr> findByMint := (\<lambda>a. None) \<rparr>"

text \<open>A Metaplex record with an empty name, and a pointer whose fetch is rejected.\<close>

definition blank_name_world :: world where
  "blank_name_world = sample_world
     \<lparr> findByMint := (\<lambda>a. Some \<lparr> nft_name = [], nft_symbol = ''TKN'',
                                     nft_uri = ''https://example.org/t.json'' \<rparr>),
       get_metadata_json := (\<lambda>u. Rejected) \<rparr>"

text \<open>A full Metaplex record, and a pointer whose fetch is rejected.\<close>

definition dead_link_world :: world where
  "dead_link_world = sample_world \<lparr> get_metadata_json := (\<lambda>u. Rejected) \<rparr>"

text \<open>A Metaplex record with a name and no symbol; the document offers both.\<close>

definition gap_world :: world where
  "gap_world = sample_world
     \<lparr> findByMint := (\<lambda>a. Some \<lparr> nft_name = ''Token'', nft_symbol = [],
                                     nft_uri = ''https://example.org/t.json'' \<rparr>) \<rparr>"

text \<open>The price endpoint reports the value 0.\<close>

definition zero_price_world :: world where
  "zero_price_world = sample_world \<lparr> get_price := (\<lambda>u. Resolved (Some (Num 0))) \<rparr>"

section \<open>Reading back what toString printed\<close>

lemma digit_val_digit_char: "d < 10 \<Longrightarrow> digit_val (digit_char d) = d"
proof -
  assume "d < 10"
  then have "d \<in> {0, 1, 2, 3, 4, 5, 6, 7, 8, 9}" by auto
  then show ?thesis
    by (auto simp: digit_val_def digit_char_def)
qed

lemma is_digit_digit_char: "d < 10 \<Longrightarrow> is_digit (digit_char d)"
proof -
  assume "d < 10"
  then have "d \<in> {0, 1, 2, 3, 4, 5, 6, 7, 8, 9}" by auto
  then show ?thesis
    by (auto simp: is_digit_def digit_char_def)
qed

lemma nat_digits_nonempty: "nat_digits n \<noteq> []"
  by (subst nat_digits.simps) simp

lemma nat_digits_all_digits: "list_all is_digit (nat_digits n)"
proof (induction n rule: nat_digits.induct)
  case (1 n)
  show ?case
  proof (cases "n < 10")
    case True
    then show ?thesis
      by (subst nat_digits.simps) (simp add: is_digit_digit_char)
  next
    case False
    then have "list_all is_digit (nat_digits (n div 10))" using "1.IH" by simp
    with False show ?thesis
      by (subst nat_digits.simps) (simp add: is_digit_digit_char)
  qed
qed

lemma digits_val_snoc: "digits_val (s @ [c]) = 10 * digits_val s + digit_val c"
  by (simp add: digits_val_def)

lemma digits_val_nat_digits: "digits_val (nat_digits n) = n"
proof (induction n rule: nat_digits.induct)
  case (1 n)
  show ?case
  proof (cases "n < 10")
    case True
    then show ?thesis
      by (subst nat_digits.simps) (simp add: digits_val_def digit_val_digit_char)
  next
    case False
    then have "digits_val (nat_digits (n div 10)) = n div 10" using "1.IH" by simp
    with False show ?thesis
      by (subst nat_digits.simps) (simp add: digits_val_snoc digit_val_digit_char)
  qed
qed

lemma is_digit_not_letter:
  "is_digit c \<Longrightarrow> c \<noteq> CHR ''e'' \<and> c \<noteq> CHR ''E'' \<and> c \<noteq> CHR ''.'' \<and> c \<noteq> CHR ''-''"
  by (auto simp: is_digit_def)

lemma takeWhile_digits:
  assumes "list_all is_digit s" and "\<And>c. is_digit c \<Longrightarrow> P c"
  shows "takeWhile P s = s" and "dropWhile P s = []"
  using assms by (induction s) auto

lemma parse_decimal_digits:
  assumes "list_all is_digit s" and "s \<noteq> []"
  shows "parse_decimal s = Some (int (digits_val s), 0)"
proof -
  have m: "takeWhile (\<lambda>c. c \<noteq> CHR ''e'' \<and> c \<noteq> CHR ''E'') s = s"
    and x: "dropWhile (\<lambda>c. c \<noteq> CHR ''e'' \<and> c \<noteq> CHR ''E'') s = []"
    using takeWhile_digits [OF assms(1), of "\<lambda>c. c \<noteq> CHR ''e'' \<and> c \<noteq> CHR ''E''"]
      is_digit_not_letter by blast+
  have i: "takeWhile (\<lambda>c. c \<noteq> CHR ''.'') s = s"
    and f: "dropWhile (\<lambda>c. c \<noteq> CHR ''.'') s = []"
    using takeWhile_digits [OF assms(1), of "\<lambda>c. c \<noteq> CHR ''.''"]
      is_digit_not_letter by blast+
  show ?thesis
    using assms by (simp add: parse_decimal_def m x i f)
qed

lemma new_BigNumber_toString: "new_BigNumber (bigint_toString a) = BN a 0"
proof (cases "a < 0")
  case True
  have "parse_decimal (nat_digits (nat (- a))) = Some (int (digits_val (nat_digits (nat (- a)))), 0)"
    by (rule parse_decimal_digits [OF nat_digits_all_digits nat_digits_nonempty])
  with True show ?thesis
    by (simp add: new_BigNumber_def bigint_toString_def digits_val_nat_digits)
next
  case False
  define s where "s = nat_digits (nat a)"
  have d: "list_all is_digit s" unfolding s_def by (rule nat_digits_all_digits)
  have ne: "s \<noteq> []" unfolding s_def by (rule nat_digits_nonempty)
  have v: "int (digits_val s) = a" unfolding s_def using False by (simp add: digits_val_nat_digits)
  from ne d have "is_digit (hd s)" by (cases s) auto
  then have nm: "hd s \<noteq> CHR ''-''" using is_digit_not_letter by blast
  have pd: "parse_decimal s = Some (a, 0)"
    using parse_decimal_digits [OF d ne] v by simp
  have "new_BigNumber s = BN a 0"
    using nm ne pd by (simp add: new_BigNumber_def)
  with False show ?thesis
    by (simp add: bigint_toString_def s_def)
qed

lemma convertToDecimal_BN: "convertToDecimal raw d = BN raw (- d)"
  by (simp add: convertToDecimal_def new_BigNumber_toString)

lemma scale_down: "0 \<le> k \<Longrightarrow> (of_int n :: rat) * 10 powi (- k) = of_int n / 10 ^ nat k"
  by (simp add: power_int_def field_simps)

section \<open>Evaluating the library functions\<close>

text \<open>
  The recursive digit functions are unfolded by these conditional equations, one step
  for each digit.
\<close>

lemma nat_digits_small: "n < 10 \<Longrightarrow> nat_digits n = [digit_char n]"
  by (subst nat_digits.simps) simp

lemma nat_digits_large: "\<not> n < 10 \<Longrightarrow> nat_digits n = nat_digits (n div 10) @ [digit_char (n mod 10)]"
  by (subst nat_digits.simps) simp

lemmas format_eval = group_int_def fraction_digits_def nat_digits_small nat_digits_large digit_char_def

lemma numlen_stop: "n < b \<or> b < 2 \<Longrightarrow> numlen b n = 1"
  by (subst numlen.simps) simp

lemma numlen_step: "\<not> (n < b \<or> b < 2) \<Longrightarrow> numlen b n = 1 + numlen b (n div b)"
  by (subst numlen.simps) simp

lemmas double_eval = round_decimal_def round_ratio_def floor_log_def round_half_even_div_def
  candidates_def shortest_decimal_def numlen_stop numlen_step Let_def

lemma quotient_of_5_2: "quotient_of (5 / 2) = (5, 2)"
  by code_simp

lemma BigNumber_of_5_2: "BigNumber_of_number (Num (5 / 2)) = BN 25 (- 1)"
  by (simp add: double_eval quotient_of_5_2)

lemma BigNumber_of_1: "BigNumber_of_number (Num 1) = BN 1 0"
  by (simp add: double_eval)

lemma cap_odd_supply:
  "toNumber (multipliedBy (convertToDecimal 9007199254740993 0) (Num 1)) = Num 9007199254740992"
  by (simp only: multipliedBy_def convertToDecimal_BN BigNumber_of_1 times_big.simps)
    (simp add: double_eval)

lemma val_odd_supply:
  "bn_val (multipliedBy (convertToDecimal 9007199254740993 0) (Num 1)) = Some 9007199254740993"
  by (simp only: multipliedBy_def convertToDecimal_BN BigNumber_of_1 times_big.simps) simp

lemma format_million: "toFormat (convertToDecimal 1000000000000 6) = ''1,000,000''"
  by (simp add: convertToDecimal_BN format_eval)

text \<open>The decimal library multiplies exactly, and a finite number is read as a finite decimal.\<close>

lemma BigNumber_of_finite: "\<exists>c e. BigNumber_of_number (Num p) = BN c e"
  by (simp add: Let_def split: prod.splits)

lemma bn_val_times:
  "bn_val (times_big (BN c1 e1) (BN c2 e2)) = Some ((of_int c1 * 10 powi e1) * (of_int c2 * 10 powi e2))"
  by (simp add: power_int_add)

section \<open>Rounding depends on the value only\<close>

text \<open>
  \<open>floor_log\<close> is the integer logarithm it is meant to be, so it does not change when
  numerator and denominator are scaled together; neither does the rounding. A decimal
  supply of one million is therefore rounded alike however many decimals the mint has.
\<close>

lemma numlen_bounds:
  "2 \<le> b \<Longrightarrow> 1 \<le> n \<Longrightarrow> 1 \<le> numlen b n \<and> b ^ nat (numlen b n - 1) \<le> n \<and> n < b ^ nat (numlen b n)"
proof (induction b n rule: numlen.induct)
  case (1 b n)
  show ?case
  proof (cases "n < b")
    case True
    with 1(2,3) show ?thesis by (simp add: numlen_stop)
  next
    case False
    with 1(2) have step: "numlen b n = 1 + numlen b (n div b)" by (simp add: numlen_step)
    have q: "1 \<le> n div b" using False 1(2) pos_imp_zdiv_pos_iff [of b n]
      by simp
    from False 1(2) have "\<not> (n < b \<or> b < 2)" by simp
    from "1.IH" [OF this 1(2) q]
    have l: "1 \<le> numlen b (n div b)"
      and lo: "b ^ nat (numlen b (n div b) - 1) \<le> n div b"
      and hi: "n div b < b ^ nat (numlen b (n div b))" by auto
    define k where "k = nat (numlen b (n div b) - 1)"
    have k1: "nat (numlen b (n div b)) = Suc k" using l by (simp add: k_def)
    have b0: "0 < b" using 1(2) by simp
    have "b ^ k \<le> n div b" using lo by (simp add: k_def)
    then have "b ^ k * b \<le> (n div b) * b"
      by (rule mult_right_mono) (use b0 in simp)
    also have "\<dots> \<le> n"
    proof -
      have "n = b * (n div b) + n mod b" by simp
      moreover have "0 \<le> n mod b" using b0 by simp
      ultimately have "b * (n div b) \<le> n" by linarith
      then show ?thesis by (simp add: mult.commute)
    qed
    finally have lo': "b ^ Suc k \<le> n" by (simp add: mult.commute)
    have "n div b + 1 \<le> b ^ Suc k" using hi k1 by simp
    then have "(n div b + 1) * b \<le> b ^ Suc k * b"
      by (rule mult_right_mono) (use b0 in simp)
    moreover have "n < (n div b + 1) * b"
    proof -
      have "n = b * (n div b) + n mod b" by simp
      moreover have "n mod b < b" using b0 by simp
      ultimately have "n < b * (n div b) + b" by linarith
      then show ?thesis by (simp add: algebra_simps)
    qed
    ultimately have hi': "n < b ^ Suc (Suc k)" by (simp add: mult.commute)
    from step l k1 lo' hi' show ?thesis
      by (simp add: nat_add_distrib)
  qed
qed


lemma below_test:
  assumes "0 < b"
  shows "(if 0 \<le> g then b ^ nat g * d \<le> n else d \<le> n * b ^ nat (- g)) = below b n d g"
proof (cases "0 \<le> g")
  case True
  have "(b ^ nat g * d \<le> n) = ((of_int (b ^ nat g * d) :: rat) \<le> of_int n)"
    by (simp only: of_int_le_iff)
  with True show ?thesis by (simp add: below_def power_int_def)
next
  case False
  have p: "(0::rat) < of_int b ^ nat (- g)" using assms by simp
  have "(d \<le> n * b ^ nat (- g)) = ((of_int d :: rat) \<le> of_int (n * b ^ nat (- g)))"
    by (simp only: of_int_le_iff)
  also have "\<dots> = (inverse (of_int b ^ nat (- g)) * of_int d \<le> (of_int n :: rat))"
    using p by (simp add: field_simps)
  finally show ?thesis using False by (simp add: below_def power_int_def power_inverse)
qed

lemma below_antitone:
  assumes "1 \<le> b" and "0 \<le> d" and "g \<le> h" and "below b n d h"
  shows "below b n d g"
proof -
  have "(of_int b :: rat) powi g \<le> of_int b powi h"
    using assms(1,3) by (intro power_int_increasing) auto
  then have "(of_int b :: rat) powi g * of_int d \<le> of_int b powi h * of_int d"
    using assms(2) by (intro mult_right_mono) auto
  with assms(4) show ?thesis unfolding below_def by linarith
qed

lemma below_scale:
  assumes "0 < k"
  shows "below b (k * n) (k * d) g = below b n d g"
proof -
  have "(of_int b powi g * (of_int k * of_int d) \<le> (of_int k * of_int n :: rat))
      = (of_int k * (of_int b powi g * of_int d) \<le> (of_int k * of_int n :: rat))"
    by (simp add: mult_ac)
  also have "\<dots> = (of_int b powi g * of_int d \<le> (of_int n :: rat))"
    using assms by simp
  finally show ?thesis by (simp add: below_def)
qed

lemma floor_log_spec:
  assumes b: "2 \<le> b" and n: "1 \<le> n" and d: "1 \<le> d"
  shows "below b n d (floor_log b n d) \<and> \<not> below b n d (floor_log b n d + 1)"
proof -
  define ln where "ln = numlen b n"
  define ld where "ld = numlen b d"
  define B :: rat where "B = of_int b"
  have B: "1 < B" "0 < B" "B \<noteq> 0" using b by (simp_all add: B_def)
  from numlen_bounds [OF b n] have ln1: "1 \<le> ln" and nlo: "b ^ nat (ln - 1) \<le> n"
    and nhi: "n < b ^ nat ln" by (simp_all add: ln_def)
  from numlen_bounds [OF b d] have ld1: "1 \<le> ld" and dlo: "b ^ nat (ld - 1) \<le> d"
    and dhi: "d < b ^ nat ld" by (simp_all add: ld_def)
  have Nlo: "B powi (ln - 1) \<le> of_int n"
  proof -
    have "(of_int (b ^ nat (ln - 1)) :: rat) \<le> of_int n" using nlo by (simp only: of_int_le_iff)
    then show ?thesis using ln1 by (simp add: power_int_def B_def)
  qed
  have Nhi: "of_int n < B powi ln"
  proof -
    have "(of_int n :: rat) < of_int (b ^ nat ln)" using nhi by (simp only: of_int_less_iff)
    then show ?thesis using ln1 by (simp add: power_int_def B_def)
  qed
  have Dlo: "B powi (ld - 1) \<le> of_int d"
  proof -
    have "(of_int (b ^ nat (ld - 1)) :: rat) \<le> of_int d" using dlo by (simp only: of_int_le_iff)
    then show ?thesis using ld1 by (simp add: power_int_def B_def)
  qed
  have Dhi: "of_int d < B powi ld"
  proof -
    have "(of_int d :: rat) < of_int (b ^ nat ld)" using dhi by (simp only: of_int_less_iff)
    then show ?thesis using ld1 by (simp add: power_int_def B_def)
  qed
  have D0: "(0::rat) < of_int d" using d by simp
  have up: "\<not> below b n d (ln - ld + 1)"
  proof -
    have "B powi (ln - ld + 1) * B powi (ld - 1) = B powi ln"
      using B(3) by (simp add: power_int_add [symmetric])
    moreover have "B powi (ln - ld + 1) * B powi (ld - 1) \<le> B powi (ln - ld + 1) * of_int d"
      using Dlo B(2) by (intro mult_left_mono) auto
    ultimately have "of_int n < B powi (ln - ld + 1) * of_int d" using Nhi by linarith
    then show ?thesis by (simp add: below_def B_def)
  qed
  have down: "below b n d (ln - ld - 1)"
  proof -
    have "B powi (ln - ld - 1) * B powi ld = B powi (ln - 1)"
      using B(3) by (simp add: power_int_add [symmetric])
    moreover have "B powi (ln - ld - 1) * of_int d \<le> B powi (ln - ld - 1) * B powi ld"
      using Dhi B(2) by (intro mult_left_mono) auto
    ultimately have "B powi (ln - ld - 1) * of_int d \<le> of_int n" using Nlo by linarith
    then show ?thesis by (simp add: below_def B_def)
  qed
  have b0: "0 < b" using b by simp
  show ?thesis
  proof (cases "below b n d (ln - ld)")
    case True
    then have "floor_log b n d = ln - ld"
      by (simp add: floor_log_def Let_def below_test [OF b0] ln_def ld_def)
    with True up show ?thesis by simp
  next
    case False
    then have "floor_log b n d = ln - ld - 1"
      by (simp add: floor_log_def Let_def below_test [OF b0] ln_def ld_def)
    with False down show ?thesis by simp
  qed
qed

lemma floor_log_unique:
  assumes b: "2 \<le> b" and n: "1 \<le> n" and d: "1 \<le> d"
    and g: "below b n d g" "\<not> below b n d (g + 1)"
  shows "floor_log b n d = g"
proof -
  define f where "f = floor_log b n d"
  from floor_log_spec [OF b n d] have f: "below b n d f" "\<not> below b n d (f + 1)"
    by (simp_all add: f_def)
  have b1: "1 \<le> b" and d0: "0 \<le> d" using b d by simp_all
  have "\<not> f < g"
  proof
    assume "f < g"
    then have "f + 1 \<le> g" by simp
    from below_antitone [OF b1 d0 this g(1)] f(2) show False by simp
  qed
  moreover have "\<not> g < f"
  proof
    assume "g < f"
    then have "g + 1 \<le> f" by simp
    from below_antitone [OF b1 d0 this f(1)] g(2) show False by simp
  qed
  ultimately show ?thesis by (simp add: f_def)
qed

lemma floor_log_scale:
  assumes b: "2 \<le> b" and n: "1 \<le> n" and d: "1 \<le> d" and k: "1 \<le> k"
  shows "floor_log b (k * n) (k * d) = floor_log b n d"
proof -
  have k0: "0 < k" using k by simp
  have "1 * 1 \<le> k * n" by (rule mult_mono) (use k n in auto)
  then have kn: "1 \<le> k * n" by simp
  have "1 * 1 \<le> k * d" by (rule mult_mono) (use k d in auto)
  then have kd: "1 \<le> k * d" by simp
  from floor_log_spec [OF b n d] have "below b (k * n) (k * d) (floor_log b n d)"
    "\<not> below b (k * n) (k * d) (floor_log b n d + 1)"
    by (simp_all add: below_scale [OF k0])
  then show ?thesis by (rule floor_log_unique [OF b kn kd])
qed


lemma round_half_even_div_scale:
  assumes "0 < k"
  shows "round_half_even_div (k * n) (k * d) = round_half_even_div n d"
proof -
  have q: "(k * n) div (k * d) = n div d" using assms by simp
  have r: "(k * n) mod (k * d) = k * (n mod d)" by (rule mod_mult_mult1)
  have lt: "(2 * (k * (n mod d)) < k * d) = (2 * (n mod d) < d)"
  proof -
    have "(k * (2 * (n mod d)) < k * d) = (2 * (n mod d) < d)"
      using assms by (simp only: mult_less_cancel_left_pos)
    then show ?thesis by (simp add: mult_ac)
  qed
  have gt: "(k * d < 2 * (k * (n mod d))) = (d < 2 * (n mod d))"
  proof -
    have "(k * d < k * (2 * (n mod d))) = (d < 2 * (n mod d))"
      using assms by (simp only: mult_less_cancel_left_pos)
    then show ?thesis by (simp add: mult_ac)
  qed
  show ?thesis
    unfolding round_half_even_div_def Let_def q r lt gt ..
qed

lemma round_ratio_scale:
  assumes n: "1 \<le> n" and d: "1 \<le> d" and k: "1 \<le> k"
  shows "round_ratio (k * n) (k * d) = round_ratio n d"
proof -
  have k0: "0 < k" using k by simp
  have f: "floor_log 2 (k * n) (k * d) = floor_log 2 n d"
    by (rule floor_log_scale [OF _ n d k]) simp
  have a: "round_half_even_div (k * n) (k * d * c) = round_half_even_div n (d * c)" for c
    using round_half_even_div_scale [OF k0, of n "d * c"] by (simp add: mult_ac)
  have b: "round_half_even_div (k * n * c) (k * d) = round_half_even_div (n * c) d" for c
    using round_half_even_div_scale [OF k0, of "n * c" d] by (simp add: mult_ac)
  show ?thesis
    unfolding round_ratio_def f a b ..
qed

lemma cap_million:
  assumes "0 \<le> d"
  shows "toNumber (multipliedBy (convertToDecimal (1000000 * 10 ^ nat d) d) (Num (5 / 2))) = Num 2500000"
proof -
  define k :: int where "k = 10 ^ nat (d + 1)"
  have k: "1 \<le> k" by (simp add: k_def)
  have c: "25 * (1000000 * 10 ^ nat d) = k * 2500000"
    using assms by (simp add: k_def nat_add_distrib)
  have "multipliedBy (convertToDecimal (1000000 * 10 ^ nat d) d) (Num (5 / 2))
      = BN (k * 2500000) (- d - 1)"
    by (simp only: multipliedBy_def convertToDecimal_BN BigNumber_of_5_2 times_big.simps)
      (simp add: c [symmetric])
  moreover have "0 < k * 2500000" using k by simp
  moreover have "round_decimal (k * 2500000) (- d - 1) = round_ratio (k * 2500000) (k * 1)"
    using assms by (simp add: round_decimal_def k_def add.commute)
  moreover have "round_ratio (k * 2500000) (k * 1) = round_ratio 2500000 1"
    by (rule round_ratio_scale [OF _ _ k]) simp_all
  moreover have "round_ratio 2500000 1 = Num 2500000"
    by (simp add: double_eval)
  ultimately show ?thesis by simp
qed

section \<open>The rounding error\<close>

text \<open>
  Rounding a positive ratio gives a double on the grid of its magnitude, at most half a
  grid step away: the result of \<open>toNumber\<close> is within the fraction \<open>2^-53\<close> of the
  decimal, or within half the smallest positive double of it.
\<close>

lemma round_half_even_div_near:
  assumes "0 < d"
  shows "\<bar>of_int (round_half_even_div n d) - (of_int n / of_int d :: rat)\<bar> \<le> 1 / 2"
proof -
  define q where "q = n div d"
  define r where "r = n mod d"
  have n: "n = d * q + r" by (simp add: q_def r_def)
  have r: "0 \<le> r" "r < d" using assms by (simp_all add: r_def)
  have D: "(0::rat) < of_int d" using assms by simp
  have x: "(of_int n / of_int d :: rat) = of_int q + of_int r / of_int d"
    using D by (simp add: n field_simps)
  have R0: "(0::rat) \<le> of_int r / of_int d" using r D by simp
  consider "2 * r < d" | "d < 2 * r" | "2 * r = d" by linarith
  then show ?thesis
  proof cases
    case 1
    then have "(of_int (2 * r) :: rat) < of_int d" by (simp only: of_int_less_iff)
    then have "(of_int r / of_int d :: rat) < 1 / 2" using D by (simp add: field_simps)
    moreover have "round_half_even_div n d = q"
      using 1 by (simp add: round_half_even_div_def Let_def q_def r_def)
    ultimately show ?thesis using R0 x by simp
  next
    case 2
    then have "(of_int d :: rat) < of_int (2 * r)" by (simp only: of_int_less_iff)
    then have "1 / 2 < (of_int r / of_int d :: rat)" using D by (simp add: field_simps)
    moreover have "(of_int r / of_int d :: rat) < 1" using r D by simp
    moreover have "round_half_even_div n d = q + 1"
      using 2 by (simp add: round_half_even_div_def Let_def q_def r_def)
    ultimately show ?thesis using x by simp
  next
    case 3
    then have "(of_int (2 * r) :: rat) = of_int d" by (simp only: of_int_eq_iff)
    then have h: "(of_int r / of_int d :: rat) = 1 / 2" using D by (simp add: field_simps)
    have "round_half_even_div n d = q \<or> round_half_even_div n d = q + 1"
      using 3 by (simp add: round_half_even_div_def Let_def q_def r_def)
    then show ?thesis using x h by auto
  qed
qed

lemma round_half_even_div_mono:
  assumes "0 < d" and "of_int n / of_int d \<le> (of_int k :: rat)"
  shows "round_half_even_div n d \<le> k"
proof -
  define q where "q = n div d"
  define r where "r = n mod d"
  have n: "n = d * q + r" by (simp add: q_def r_def)
  have r: "0 \<le> r" "r < d" using assms by (simp_all add: r_def)
  have D: "(0::rat) < of_int d" using assms by simp
  have "(of_int n :: rat) \<le> of_int k * of_int d" using assms(2) D by (simp add: field_simps)
  then have "(of_int n :: rat) \<le> of_int (k * d)" by simp
  then have nk: "n \<le> k * d" by (simp only: of_int_le_iff)
  have qk: "q \<le> k"
  proof (rule ccontr)
    assume "\<not> q \<le> k"
    then have "k + 1 \<le> q" by simp
    then have "d * (k + 1) \<le> d * q" using assms(1) by (intro mult_left_mono) auto
    with n r nk show False by (simp add: algebra_simps)
  qed
  show ?thesis
  proof (cases "q = k")
    case True
    with n nk have "r = 0" using r by (simp add: algebra_simps)
    with True assms(1) show ?thesis
      by (simp add: round_half_even_div_def Let_def q_def [symmetric] r_def [symmetric])
  next
    case False
    with qk have "q + 1 \<le> k" by simp
    moreover have "round_half_even_div n d \<le> q + 1"
      by (simp add: round_half_even_div_def Let_def q_def)
    ultimately show ?thesis by simp
  qed
qed


lemma round_ratio_near:
  assumes n: "1 \<le> n" and d: "1 \<le> d"
  shows "\<exists>m u. 0 \<le> m \<and> m \<le> 2 ^ 53 \<and> - 1074 \<le> u
           \<and> (u = - 1074 \<or> 2 powi (u + 52) \<le> (of_int n / of_int d :: rat))
           \<and> (of_int n / of_int d :: rat) < 2 powi (u + 53)
           \<and> \<bar>of_int m * 2 powi u - (of_int n / of_int d :: rat)\<bar> \<le> 2 powi u / 2
           \<and> (round_ratio n d = Infinity False \<or> round_ratio n d = Num (of_int m * 2 powi u))"
proof -
  define x :: rat where "x = of_int n / of_int d"
  define p where "p = floor_log 2 n d"
  define u where "u = max (p - 52) (- 1074)"
  define m where "m = (if 0 \<le> u then round_half_even_div n (d * 2 ^ nat u)
               else round_half_even_div (n * 2 ^ nat (- u)) d)"
  have D: "(0::rat) < of_int d" using d by simp
  have x0: "0 < x" using n D by (simp add: x_def)
  from floor_log_spec [of 2 n d] n d
  have lo: "2 powi p \<le> x" and hi: "x < 2 powi (p + 1)"
    using D by (simp_all add: below_def p_def x_def field_simps)
  have u: "- 1074 \<le> u" "p - 52 \<le> u" by (simp_all add: u_def)
  have U: "(0::rat) < 2 powi u" by simp
  obtain N D' where m': "m = round_half_even_div N D'" and D': "0 < D'"
    and q: "(of_int N / of_int D' :: rat) = x / 2 powi u"
  proof (cases "0 \<le> u")
    case True
    have "(of_int n / of_int (d * 2 ^ nat u) :: rat) = x / 2 powi u"
      using True by (simp add: x_def power_int_def)
    moreover have "0 < d * 2 ^ nat u" using d by simp
    ultimately show ?thesis using that [of n "d * 2 ^ nat u"] True by (simp add: m_def)
  next
    case False
    have "(of_int (n * 2 ^ nat (- u)) / of_int d :: rat) = x / 2 powi u"
      using False by (simp add: x_def power_int_def power_inverse field_simps)
    moreover have "0 < d" using d by simp
    ultimately show ?thesis using that [of "n * 2 ^ nat (- u)" d] False by (simp add: m_def)
  qed
  from round_half_even_div_near [OF D', of N] have near: "\<bar>of_int m - x / 2 powi u\<bar> \<le> 1 / 2"
    by (simp add: m' q)
  have "x / 2 powi u < 2 powi (p + 1) / 2 powi u" using hi U by (simp add: divide_strict_right_mono)
  also have "\<dots> = 2 powi (p + 1 - u)" by (simp add: power_int_diff)
  also have "\<dots> \<le> 2 powi 53" using u(2) by (intro power_int_increasing) auto
  finally have "x / 2 powi u \<le> (of_int (2 ^ 53) :: rat)" by simp
  then have "of_int N / of_int D' \<le> (of_int (2 ^ 53) :: rat)" by (simp only: q)
  from round_half_even_div_mono [OF D' this] have m53: "m \<le> 2 ^ 53" by (simp add: m')
  have "0 < x / 2 powi u" using x0 U by simp
  with near have "- 1 < (of_int m :: rat)" by linarith
  then have "(of_int (- 1) :: rat) < of_int m" by simp
  then have "- 1 < m" by (simp only: of_int_less_iff)
  then have m0: "0 \<le> m" by simp
  have "of_int m * 2 powi u - x = 2 powi u * (of_int m - x / 2 powi u)"
    using U by (simp add: field_simps)
  then have "\<bar>of_int m * 2 powi u - x\<bar> = \<bar>2 powi u * (of_int m - x / 2 powi u)\<bar>"
    by (simp only:)
  also have "\<dots> = \<bar>2 powi u\<bar> * \<bar>of_int m - x / 2 powi u\<bar>" by (rule abs_mult)
  also have "\<dots> = 2 powi u * \<bar>of_int m - x / 2 powi u\<bar>" using U by simp
  also have "\<dots> \<le> 2 powi u * (1 / 2)" using near U by (intro mult_left_mono) auto
  finally have err: "\<bar>of_int m * 2 powi u - x\<bar> \<le> 2 powi u / 2" by simp
  have grid: "u = - 1074 \<or> 2 powi (u + 52) \<le> x"
  proof (cases "u = - 1074")
    case False
    then have "u = p - 52" by (simp add: u_def max_def split: if_splits)
    with lo show ?thesis by simp
  qed simp
  have "x < 2 powi (p + 1)" by (rule hi)
  also have "(2::rat) powi (p + 1) \<le> 2 powi (u + 53)" using u(2) by (intro power_int_increasing) auto
  finally have top: "x < 2 powi (u + 53)" .
  have "round_ratio n d = Infinity False \<or> round_ratio n d = Num (of_int m * 2 powi u)"
    by (simp add: round_ratio_def Let_def p_def [symmetric] u_def [symmetric] m_def [symmetric])
  with m0 m53 u(1) grid top err show ?thesis unfolding x_def by blast
qed

lemma round_ratio_error:
  assumes n: "1 \<le> n" and d: "1 \<le> d" and y: "round_ratio n d = Num y"
  shows "\<bar>y - (of_int n / of_int d :: rat)\<bar> \<le> (of_int n / of_int d) / 2 ^ 53
         \<or> \<bar>y - (of_int n / of_int d :: rat)\<bar> \<le> half_denorm_min"
proof -
  define x :: rat where "x = of_int n / of_int d"
  from round_ratio_near [OF n d] obtain m u where
    grid: "u = - 1074 \<or> 2 powi (u + 52) \<le> x"
    and err: "\<bar>of_int m * 2 powi u - x\<bar> \<le> 2 powi u / 2"
    and res: "round_ratio n d = Infinity False \<or> round_ratio n d = Num (of_int m * 2 powi u)"
    unfolding x_def by blast
  from res y have yv: "y = of_int m * 2 powi u" by auto
  from err have e: "\<bar>y - x\<bar> \<le> 2 powi u / 2" by (simp only: yv)
  from grid show ?thesis
  proof
    assume "u = - 1074"
    with e have "\<bar>y - x\<bar> \<le> half_denorm_min" by (simp only: half_denorm_min_def)
    then show ?thesis unfolding x_def by blast
  next
    assume g: "2 powi (u + 52) \<le> x"
    have "(2::rat) powi u / 2 = 2 powi (u + 52) / 2 ^ 53"
      using power_int_add [of "2::rat" u 52] by simp
    also have "\<dots> \<le> x / 2 ^ 53" using g by (simp add: divide_right_mono)
    finally have "\<bar>y - x\<bar> \<le> x / 2 ^ 53" using e by simp
    then show ?thesis unfolding x_def by blast
  qed
qed

lemma round_decimal_error:
  assumes c: "1 \<le> c" and y: "round_decimal c e = Num y"
  shows "\<bar>y - of_int c * 10 powi e\<bar> \<le> (of_int c * 10 powi e) / 2 ^ 53
         \<or> \<bar>y - of_int c * 10 powi e\<bar> \<le> half_denorm_min"
proof (cases "0 \<le> e")
  case True
  have "1 * 1 \<le> c * 10 ^ nat e" by (rule mult_mono) (use c in auto)
  then have n: "1 \<le> c * 10 ^ nat e" by simp
  from True y have r: "round_ratio (c * 10 ^ nat e) 1 = Num y" by (simp add: round_decimal_def)
  have v: "(of_int (c * 10 ^ nat e) / of_int 1 :: rat) = of_int c * 10 powi e"
    using True by (simp add: power_int_def)
  from round_ratio_error [OF n _ r] show ?thesis unfolding v by simp
next
  case False
  have d: "(1::int) \<le> 10 ^ nat (- e)" by simp
  from False y have r: "round_ratio c (10 ^ nat (- e)) = Num y" by (simp add: round_decimal_def)
  have v: "(of_int c / of_int (10 ^ nat (- e)) :: rat) = of_int c * 10 powi e"
    using False by (simp add: power_int_def power_inverse field_simps)
  from round_ratio_error [OF c d r] show ?thesis unfolding v .
qed

lemma toNumber_error:
  assumes "toNumber (BN c e) = Num y"
  shows "\<bar>y - of_int c * 10 powi e\<bar> \<le> \<bar>of_int c * 10 powi e\<bar> / 2 ^ 53
         \<or> \<bar>y - of_int c * 10 powi e\<bar> \<le> half_denorm_min"
proof -
  define x :: rat where "x = of_int c * 10 powi e"
  consider "c = 0" | "1 \<le> c" | "c \<le> - 1" by linarith
  then have "\<bar>y - x\<bar> \<le> \<bar>x\<bar> / 2 ^ 53 \<or> \<bar>y - x\<bar> \<le> half_denorm_min"
  proof cases
    case 1
    with assms show ?thesis by (simp add: x_def)
  next
    case 2
    then have x0: "0 \<le> x" by (simp add: x_def)
    from 2 assms have "round_decimal c e = Num y" by simp
    from round_decimal_error [OF 2 this] x0 show ?thesis by (simp add: x_def)
  next
    case 3
    then have c: "1 \<le> - c" by simp
    from 3 have x0: "x \<le> 0" by (simp add: x_def mult_nonpos_nonneg)
    from 3 assms have "negate_number (round_decimal (- c) e) = Num y" by simp
    then have r: "round_decimal (- c) e = Num (- y)"
      by (cases "round_decimal (- c) e") auto
    have "\<bar>- y - (- x)\<bar> = \<bar>y - x\<bar>" by simp
    with round_decimal_error [OF c r] x0 show ?thesis by (simp add: x_def)
  qed
  then show ?thesis unfolding x_def .
qed

section \<open>The nearest double\<close>

text \<open>
  Rounding, measured against all finite doubles and not against the steps of
  \<open>round_ratio\<close>: the result is a finite double, no finite double is closer to the
  ratio, a tie goes to the even significand, and the result is an infinity exactly
  from \<open>2^1024 - 2^970\<close> on. \<^verbatim>\<open>toNumber\<close> inherits all of it, on both sides of zero.
\<close>

lemma round_half_even_div_nearest:
  assumes "0 < d"
  shows "\<bar>of_int (round_half_even_div n d) - (of_int n / of_int d :: rat)\<bar>
           \<le> \<bar>of_int k - of_int n / of_int d\<bar>"
proof (cases "k = round_half_even_div n d")
  case False
  define r where "r = round_half_even_div n d"
  define t :: rat where "t = of_int n / of_int d"
  have near: "\<bar>of_int r - t\<bar> \<le> 1 / 2"
    unfolding r_def t_def by (rule round_half_even_div_near [OF assms])
  from False have "1 \<le> \<bar>k - r\<bar>" by (simp add: r_def)
  then have "(of_int 1 :: rat) \<le> of_int \<bar>k - r\<bar>" by (simp only: of_int_le_iff)
  then have "(1::rat) \<le> \<bar>of_int k - of_int r\<bar>" by simp
  also have "\<dots> \<le> \<bar>of_int k - t\<bar> + \<bar>of_int r - t\<bar>" by linarith
  finally have "1 / 2 \<le> \<bar>of_int k - t\<bar>" using near by linarith
  with near show ?thesis unfolding r_def t_def by linarith
qed simp

lemma round_half_even_div_lower:
  assumes "0 < d" and "(of_int k :: rat) \<le> of_int n / of_int d"
  shows "k \<le> round_half_even_div n d"
proof -
  define q where "q = n div d"
  define r where "r = n mod d"
  have n: "n = d * q + r" by (simp add: q_def r_def)
  have r: "0 \<le> r" "r < d" using assms by (simp_all add: r_def)
  have D: "(0::rat) < of_int d" using assms by simp
  have "(of_int k :: rat) * of_int d \<le> of_int n" using assms(2) D by (simp add: field_simps)
  then have "(of_int (k * d) :: rat) \<le> of_int n" by simp
  then have kn: "k * d \<le> n" by (simp only: of_int_le_iff)
  have "k \<le> q"
  proof (rule ccontr)
    assume "\<not> k \<le> q"
    then have "q + 1 \<le> k" by simp
    then have "d * (q + 1) \<le> d * k" using assms(1) by (intro mult_left_mono) auto
    with n r kn show False by (simp add: algebra_simps)
  qed
  moreover have "q \<le> round_half_even_div n d"
    by (simp add: round_half_even_div_def Let_def q_def)
  ultimately show ?thesis by simp
qed


lemma round_half_even_div_tie:
  assumes "0 < d" and "\<bar>of_int (round_half_even_div n d) - (of_int n / of_int d :: rat)\<bar> = 1 / 2"
  shows "even (round_half_even_div n d)"
proof -
  define q where "q = n div d"
  define r where "r = n mod d"
  have n: "n = d * q + r" by (simp add: q_def r_def)
  have r: "0 \<le> r" "r < d" using assms by (simp_all add: r_def)
  have D: "(0::rat) < of_int d" using assms by simp
  have x: "(of_int n / of_int d :: rat) = of_int q + of_int r / of_int d"
    using D by (simp add: n field_simps)
  have R0: "(0::rat) \<le> of_int r / of_int d" using r D by simp
  consider "2 * r < d" | "d < 2 * r" | "2 * r = d" by linarith
  then show ?thesis
  proof cases
    case 1
    then have "(of_int (2 * r) :: rat) < of_int d" by (simp only: of_int_less_iff)
    then have lt: "(of_int r / of_int d :: rat) < 1 / 2" using D by (simp add: field_simps)
    have "round_half_even_div n d = q"
      using 1 by (simp add: round_half_even_div_def Let_def q_def r_def)
    with assms(2) have "\<bar>of_int q - (of_int q + of_int r / of_int d :: rat)\<bar> = 1 / 2"
      by (simp only: x)
    with R0 lt have False by linarith
    then show ?thesis ..
  next
    case 2
    then have "(of_int d :: rat) < of_int (2 * r)" by (simp only: of_int_less_iff)
    then have gt: "1 / 2 < (of_int r / of_int d :: rat)" using D by (simp add: field_simps)
    have lt: "(of_int r / of_int d :: rat) < 1" using r D by simp
    have "round_half_even_div n d = q + 1"
      using 2 by (simp add: round_half_even_div_def Let_def q_def r_def)
    with assms(2) have "\<bar>of_int (q + 1) - (of_int q + of_int r / of_int d :: rat)\<bar> = 1 / 2"
      by (simp only: x)
    then have "\<bar>of_int q + 1 - (of_int q + of_int r / of_int d :: rat)\<bar> = 1 / 2"
      by (simp only: of_int_add of_int_1)
    with gt lt have False by linarith
    then show ?thesis ..
  next
    case 3
    then show ?thesis
      by (simp add: round_half_even_div_def Let_def q_def [symmetric] r_def [symmetric])
  qed
qed

lemma round_ratio_grid:
  assumes n: "1 \<le> n" and d: "1 \<le> d"
  shows "\<exists>m u. 0 \<le> m \<and> m \<le> 2 ^ 53 \<and> - 1074 \<le> u
           \<and> (u = - 1074 \<or> (2 powi (u + 52) \<le> (of_int n / of_int d :: rat) \<and> 2 ^ 52 \<le> m))
           \<and> (of_int n / of_int d :: rat) < 2 powi (u + 53)
           \<and> \<bar>of_int m * 2 powi u - (of_int n / of_int d :: rat)\<bar> \<le> 2 powi u / 2
           \<and> (\<bar>of_int m * 2 powi u - (of_int n / of_int d :: rat)\<bar> = 2 powi u / 2 \<longrightarrow> even m)
           \<and> (\<forall>k. \<bar>of_int m * 2 powi u - (of_int n / of_int d :: rat)\<bar>
                   \<le> \<bar>of_int k * 2 powi u - of_int n / of_int d\<bar>)
           \<and> round_ratio n d = (if 0 \<le> u \<and> 2 ^ 1024 \<le> m * 2 ^ nat u then Infinity False
                                else Num (of_int m * 2 powi u))"
proof -
  define x :: rat where "x = of_int n / of_int d"
  define p where "p = floor_log 2 n d"
  define u where "u = max (p - 52) (- 1074)"
  define m where "m = (if 0 \<le> u then round_half_even_div n (d * 2 ^ nat u)
               else round_half_even_div (n * 2 ^ nat (- u)) d)"
  have D: "(0::rat) < of_int d" using d by simp
  have x0: "0 < x" using n D by (simp add: x_def)
  from floor_log_spec [of 2 n d] n d
  have lo: "2 powi p \<le> x" and hi: "x < 2 powi (p + 1)"
    using D by (simp_all add: below_def p_def x_def field_simps)
  have u: "- 1074 \<le> u" "p - 52 \<le> u" by (simp_all add: u_def)
  have U: "(0::rat) < 2 powi u" by simp
  obtain N D' where m': "m = round_half_even_div N D'" and D': "0 < D'"
    and q: "(of_int N / of_int D' :: rat) = x / 2 powi u"
  proof (cases "0 \<le> u")
    case True
    have "(of_int n / of_int (d * 2 ^ nat u) :: rat) = x / 2 powi u"
      using True by (simp add: x_def power_int_def)
    moreover have "0 < d * 2 ^ nat u" using d by simp
    ultimately show ?thesis using that [of n "d * 2 ^ nat u"] True by (simp add: m_def)
  next
    case False
    have "(of_int (n * 2 ^ nat (- u)) / of_int d :: rat) = x / 2 powi u"
      using False by (simp add: x_def power_int_def power_inverse field_simps)
    moreover have "0 < d" using d by simp
    ultimately show ?thesis using that [of "n * 2 ^ nat (- u)" d] False by (simp add: m_def)
  qed
  have near: "\<bar>of_int m - x / 2 powi u\<bar> \<le> \<bar>of_int k - x / 2 powi u\<bar>" for k
    using round_half_even_div_nearest [OF D', of N k] by (simp add: m' q)
  have "x / 2 powi u < 2 powi (p + 1) / 2 powi u" using hi U by (simp add: divide_strict_right_mono)
  also have "\<dots> = 2 powi (p + 1 - u)" by (simp add: power_int_diff)
  also have "\<dots> \<le> 2 powi 53" using u(2) by (intro power_int_increasing) auto
  finally have "x / 2 powi u \<le> (of_int (2 ^ 53) :: rat)" by simp
  then have "of_int N / of_int D' \<le> (of_int (2 ^ 53) :: rat)" by (simp only: q)
  from round_half_even_div_mono [OF D' this] have m53: "m \<le> 2 ^ 53" by (simp add: m')
  have "(0::rat) \<le> x / 2 powi u" using x0 U by simp
  then have "(of_int 0 :: rat) \<le> of_int N / of_int D'" by (simp only: q of_int_0)
  from round_half_even_div_lower [OF D' this] have m0: "0 \<le> m" by (simp add: m')
  have scale: "\<bar>of_int k * 2 powi u - x\<bar> = 2 powi u * \<bar>of_int k - x / 2 powi u\<bar>" for k :: int
  proof -
    have "of_int k * 2 powi u - x = 2 powi u * (of_int k - x / 2 powi u)"
      using U by (simp add: field_simps)
    then have "\<bar>of_int k * 2 powi u - x\<bar> = \<bar>2 powi u * (of_int k - x / 2 powi u)\<bar>"
      by (simp only:)
    also have "\<dots> = \<bar>2 powi u\<bar> * \<bar>of_int k - x / 2 powi u\<bar>" by (rule abs_mult)
    finally show ?thesis using U by simp
  qed
  have best: "\<bar>of_int m * 2 powi u - x\<bar> \<le> \<bar>of_int k * 2 powi u - x\<bar>" for k
    unfolding scale using near [of k] U by (intro mult_left_mono) auto
  have "\<bar>of_int m - x / 2 powi u\<bar> \<le> 1 / 2"
    using round_half_even_div_near [OF D', of N] by (simp add: m' q)
  then have "2 powi u * \<bar>of_int m - x / 2 powi u\<bar> \<le> 2 powi u * (1 / 2)"
    using U by (intro mult_left_mono) auto
  then have err: "\<bar>of_int m * 2 powi u - x\<bar> \<le> 2 powi u / 2"
    unfolding scale by simp
  have tie: "even m" if "\<bar>of_int m * 2 powi u - x\<bar> = 2 powi u / 2"
  proof -
    from that have "2 powi u * \<bar>of_int m - x / 2 powi u\<bar> = 2 powi u * (1 / 2)"
      unfolding scale by simp
    then have "\<bar>of_int m - x / 2 powi u\<bar> = 1 / 2" using U by (simp only: mult_cancel_left) simp
    then have "\<bar>of_int (round_half_even_div N D') - (of_int N / of_int D' :: rat)\<bar> = 1 / 2"
      by (simp only: m' q)
    from round_half_even_div_tie [OF D' this] show ?thesis by (simp only: m')
  qed
  have grid: "u = - 1074 \<or> (2 powi (u + 52) \<le> x \<and> 2 ^ 52 \<le> m)"
  proof (cases "u = - 1074")
    case False
    then have up: "u = p - 52" by (simp add: u_def max_def split: if_splits)
    with lo have l: "2 powi (u + 52) \<le> x" by simp
    have "(2::rat) powi (u + 52) = 2 powi u * 2 ^ 52"
      using power_int_add [of "2::rat" u 52] by simp
    then have "(2::rat) powi (u + 52) / 2 powi u = of_int (2 ^ 52)" using U by simp
    moreover have "2 powi (u + 52) / 2 powi u \<le> x / 2 powi u"
      using l U by (simp add: divide_right_mono)
    ultimately have "(of_int (2 ^ 52) :: rat) \<le> of_int N / of_int D'" by (simp only: q)
    from round_half_even_div_lower [OF D' this] have "2 ^ 52 \<le> m" by (simp add: m')
    with l show ?thesis by simp
  qed simp
  have "x < 2 powi (p + 1)" by (rule hi)
  also have "(2::rat) powi (p + 1) \<le> 2 powi (u + 53)" using u(2) by (intro power_int_increasing) auto
  finally have top: "x < 2 powi (u + 53)" .
  have res: "round_ratio n d = (if 0 \<le> u \<and> 2 ^ 1024 \<le> m * 2 ^ nat u then Infinity False
                                else Num (of_int m * 2 powi u))"
    by (simp only: round_ratio_def Let_def p_def [symmetric] u_def [symmetric] m_def [symmetric])
  from m0 m53 u(1) grid top err tie best res show ?thesis unfolding x_def by blast
qed


lemma two_1024: "(2::int) ^ 1024 = 2 ^ 52 * 2 ^ 972" "(2::int) ^ 1024 = 2 ^ 53 * 2 ^ 971"
  by simp_all

lemma round_ratio_finite:
  assumes n: "1 \<le> n" and d: "1 \<le> d" and y: "round_ratio n d = Num y"
  shows "0 \<le> y \<and> nearest_double (of_int n / of_int d) y"
proof -
  define x :: rat where "x = of_int n / of_int d"
  from round_ratio_grid [OF n d] obtain m u where
    m0: "0 \<le> m" and m53: "m \<le> 2 ^ 53" and u: "- 1074 \<le> u"
    and grid: "u = - 1074 \<or> (2 powi (u + 52) \<le> x \<and> 2 ^ 52 \<le> m)"
    and best: "\<And>k. \<bar>of_int m * 2 powi u - x\<bar> \<le> \<bar>of_int k * 2 powi u - x\<bar>"
    and res: "round_ratio n d = (if 0 \<le> u \<and> 2 ^ 1024 \<le> m * 2 ^ nat u then Infinity False
                                else Num (of_int m * 2 powi u))"
    unfolding x_def by blast
  define ov where "ov = (0 \<le> u \<and> 2 ^ 1024 \<le> m * 2 ^ nat u)"
  from res have res': "round_ratio n d = (if ov then Infinity False else Num (of_int m * 2 powi u))"
    by (simp only: ov_def)
  from res' y have nov: "\<not> ov" and yv: "y = of_int m * 2 powi u"
    by (auto split: if_splits)
  have y0: "0 \<le> y" using m0 by (simp add: yv)
  have big: "ov" if "2 ^ 52 \<le> m" "972 \<le> u"
  proof -
    have "(2::int) ^ 972 \<le> 2 ^ nat u" using that(2) by (intro power_increasing) auto
    with that(1) have "(2::int) ^ 52 * 2 ^ 972 \<le> m * 2 ^ nat u" by (intro mult_mono) auto
    then have "2 ^ 1024 \<le> m * 2 ^ nat u" by (simp only: two_1024(1))
    moreover have "0 \<le> u" using that(2) by simp
    ultimately show ?thesis unfolding ov_def by blast
  qed
  have big': "ov" if "2 ^ 53 \<le> m" "971 \<le> u"
  proof -
    have "(2::int) ^ 971 \<le> 2 ^ nat u" using that(2) by (intro power_increasing) auto
    with that(1) have "(2::int) ^ 53 * 2 ^ 971 \<le> m * 2 ^ nat u" by (intro mult_mono) auto
    then have "2 ^ 1024 \<le> m * 2 ^ nat u" by (simp only: two_1024(2))
    moreover have "0 \<le> u" using that(2) by simp
    ultimately show ?thesis unfolding ov_def by blast
  qed
  have fin: "finite_double y"
  proof (cases "m < 2 ^ 53")
    case True
    have "u \<le> 971"
    proof (rule ccontr)
      assume "\<not> u \<le> 971"
      then have l: "972 \<le> u" by simp
      with grid have "2 ^ 52 \<le> m" by auto
      from big [OF this l] nov show False by blast
    qed
    moreover have "\<bar>m\<bar> < 2 ^ 53" using True m0 by simp
    ultimately show ?thesis using u yv unfolding finite_double_def by blast
  next
    case False
    with m53 have m: "m = 2 ^ 53" by simp
    have "u \<le> 970"
    proof (rule ccontr)
      assume "\<not> u \<le> 970"
      then have l: "971 \<le> u" by simp
      have "2 ^ 53 \<le> m" using m by simp
      from big' [OF this l] nov show False by blast
    qed
    then have "u + 1 \<le> 971" by simp
    moreover have "- 1074 \<le> u + 1" using u by simp
    moreover have "y = of_int (2 ^ 52) * 2 powi (u + 1)"
      using power_int_add [of "2::rat" u 1] by (simp add: yv m)
    moreover have "\<bar>2 ^ 52\<bar> < (2::int) ^ 53" by simp
    ultimately show ?thesis unfolding finite_double_def by blast
  qed
  have "\<bar>y - x\<bar> \<le> \<bar>z - x\<bar>" if "finite_double z" for z
  proof -
    from that obtain K V where K: "\<bar>K\<bar> < 2 ^ 53" and V: "- 1074 \<le> V"
      and z: "z = of_int K * 2 powi V" unfolding finite_double_def by blast
    show ?thesis
    proof (cases "u \<le> V")
      case True
      have "(2::rat) powi V = 2 powi (V - u) * 2 powi u"
        using power_int_add [of "2::rat" "V - u" u] by simp
      also have "(2::rat) powi (V - u) = of_int (2 ^ nat (V - u))"
        using True by (simp add: power_int_def)
      finally have "z = of_int (K * 2 ^ nat (V - u)) * 2 powi u" by (simp add: z)
      with best [of "K * 2 ^ nat (V - u)"] show ?thesis by (simp only: yv)
    next
      case False
      with V have "u \<noteq> - 1074" by simp
      with grid have l: "2 powi (u + 52) \<le> x" by simp
      have "\<bar>z\<bar> = of_int \<bar>K\<bar> * 2 powi V" by (simp add: z abs_mult)
      also have "\<dots> < of_int (2 ^ 53) * 2 powi V"
      proof (rule mult_strict_right_mono)
        show "(of_int \<bar>K\<bar> :: rat) < of_int (2 ^ 53)" using K by (simp only: of_int_less_iff)
        show "(0::rat) < 2 powi V" by simp
      qed
      also have "\<dots> = 2 powi (V + 53)" using power_int_add [of "2::rat" V 53] by simp
      also have "\<dots> \<le> 2 powi (u + 52)" using False by (intro power_int_increasing) auto
      finally have zl: "\<bar>z\<bar> < 2 powi (u + 52)" .
      have "of_int (2 ^ 52) * 2 powi u = (2::rat) powi (u + 52)"
        using power_int_add [of "2::rat" u 52] by simp
      with best [of "2 ^ 52"] have "\<bar>y - x\<bar> \<le> \<bar>2 powi (u + 52) - x\<bar>" by (simp only: yv)
      with l zl show ?thesis by linarith
    qed
  qed
  with fin y0 show ?thesis unfolding nearest_double_def x_def by blast
qed


lemma threshold_val: "overflow_threshold = of_int (2 ^ 53) * 2 powi 971 - 2 powi 971 / 2"
  "overflow_threshold \<le> 2 powi 1024"
  by (simp_all add: overflow_threshold_def)

lemma round_ratio_overflow:
  assumes n: "1 \<le> n" and d: "1 \<le> d" and y: "round_ratio n d = Infinity b"
  shows "\<not> b \<and> overflow_threshold \<le> of_int n / of_int d"
proof -
  define x :: rat where "x = of_int n / of_int d"
  from round_ratio_grid [OF n d] obtain m u where
    m0: "0 \<le> m" and m53: "m \<le> 2 ^ 53" and u: "- 1074 \<le> u"
    and grid: "u = - 1074 \<or> (2 powi (u + 52) \<le> x \<and> 2 ^ 52 \<le> m)"
    and err: "\<bar>of_int m * 2 powi u - x\<bar> \<le> 2 powi u / 2"
    and res: "round_ratio n d = (if 0 \<le> u \<and> 2 ^ 1024 \<le> m * 2 ^ nat u then Infinity False
                                else Num (of_int m * 2 powi u))"
    unfolding x_def by blast
  define ov where "ov = (0 \<le> u \<and> 2 ^ 1024 \<le> m * 2 ^ nat u)"
  from res have res': "round_ratio n d = (if ov then Infinity False else Num (of_int m * 2 powi u))"
    by (simp only: ov_def)
  from res' y have ov: "ov" and b: "\<not> b" by (auto split: if_splits)
  then have u0: "0 \<le> u" and big: "2 ^ 53 * 2 ^ 971 \<le> m * 2 ^ nat u"
    unfolding ov_def by (simp_all only: two_1024(2))
  have "m * 2 ^ nat u \<le> 2 ^ 53 * 2 ^ nat u" using m53 by (intro mult_right_mono) auto
  with big have "(2::int) ^ 53 * 2 ^ 971 \<le> 2 ^ 53 * 2 ^ nat u" by linarith
  then have "(2::int) ^ 971 \<le> 2 ^ nat u" by (simp only: mult_le_cancel_left_pos zero_less_power zero_less_numeral)
  then have "971 \<le> nat u" by (simp only: power_increasing_iff one_less_numeral_iff semiring_norm)
  then have u971: "971 \<le> u" by simp
  with grid have l: "2 powi (u + 52) \<le> x" by auto
  have "overflow_threshold \<le> x"
  proof (cases "u = 971")
    case True
    from big True have "(2::int) ^ 53 * 2 ^ 971 \<le> m * 2 ^ 971" by simp
    then have "2 ^ 53 \<le> m" by (simp only: mult_le_cancel_right_pos zero_less_power zero_less_numeral)
    with m53 have m: "m = 2 ^ 53" by simp
    from err have "of_int m * 2 powi u - 2 powi u / 2 \<le> x" by linarith
    then show ?thesis by (simp only: threshold_val(1) m True)
  next
    case False
    with u971 have "1024 \<le> u + 52" by simp
    then have "(2::rat) powi 1024 \<le> 2 powi (u + 52)" by (intro power_int_increasing) auto
    with l threshold_val(2) show ?thesis by linarith
  qed
  with b show ?thesis unfolding x_def by blast
qed

lemma round_ratio_cases: "(\<exists>y. round_ratio n d = Num y) \<or> round_ratio n d = Infinity False"
  by (simp only: round_ratio_def Let_def split: if_splits) blast

lemma finite_double_minus: "finite_double (- z) = finite_double z"
proof -
  have "finite_double (- z)" if "finite_double z" for z
  proof -
    from that obtain K V where "\<bar>K\<bar> < 2 ^ 53" "- 1074 \<le> V" "V \<le> 971" "z = of_int K * 2 powi V"
      unfolding finite_double_def by blast
    then have "\<bar>- K\<bar> < 2 ^ 53 \<and> - 1074 \<le> V \<and> V \<le> 971 \<and> - z = of_int (- K) * 2 powi V"
      by simp
    then show ?thesis unfolding finite_double_def by blast
  qed
  from this [of z] this [of "- z"] show ?thesis by auto
qed

lemma nearest_double_minus: "nearest_double (- x) (- y) = nearest_double x y"
proof -
  have "nearest_double (- x) (- y)" if h: "nearest_double x y" for x y
    unfolding nearest_double_def
  proof (intro conjI allI impI)
    show "finite_double (- y)" using h by (simp add: nearest_double_def finite_double_minus)
    fix z assume "finite_double z"
    then have "finite_double (- z)" by (simp add: finite_double_minus)
    with h have "\<bar>y - x\<bar> \<le> \<bar>- z - x\<bar>" unfolding nearest_double_def by blast
    then show "\<bar>- y - - x\<bar> \<le> \<bar>z - - x\<bar>" by linarith
  qed
  from this [of x y] this [of "- x" "- y"] show ?thesis by auto
qed

lemma finite_double_0: "finite_double 0"
  unfolding finite_double_def by (intro exI [of _ 0]) simp

lemma round_decimal_ratio:
  assumes "1 \<le> c"
  shows "\<exists>n d. 1 \<le> n \<and> 1 \<le> d \<and> round_decimal c e = round_ratio n d
           \<and> (of_int n / of_int d :: rat) = of_int c * 10 powi e"
proof (cases "0 \<le> e")
  case True
  have "1 * 1 \<le> c * 10 ^ nat e" by (rule mult_mono) (use assms in auto)
  then have "1 \<le> c * 10 ^ nat e" by simp
  moreover have "(of_int (c * 10 ^ nat e) / of_int 1 :: rat) = of_int c * 10 powi e"
    using True by (simp add: power_int_def)
  moreover have "round_decimal c e = round_ratio (c * 10 ^ nat e) 1"
    using True by (simp add: round_decimal_def)
  ultimately show ?thesis by (intro exI [of _ "c * 10 ^ nat e"] exI [of _ 1]) simp
next
  case False
  have "(1::int) \<le> 10 ^ nat (- e)" by simp
  moreover have "(of_int c / of_int (10 ^ nat (- e)) :: rat) = of_int c * 10 powi e"
    using False by (simp add: power_int_def power_inverse field_simps)
  moreover have "round_decimal c e = round_ratio c (10 ^ nat (- e))"
    using False by (simp add: round_decimal_def)
  ultimately show ?thesis using assms by (intro exI [of _ c] exI [of _ "10 ^ nat (- e)"]) simp
qed

lemma toNumber_not_NaN: "toNumber (BN c e) \<noteq> NaN"
proof -
  have "round_decimal k e \<noteq> NaN" for k
    using round_ratio_cases by (auto simp: round_decimal_def) (metis number.distinct)+
  then show ?thesis
    by (cases "round_decimal (- c) e") (auto simp del: round_decimal_def)
qed


lemma nearest_double_0: "nearest_double 0 0"
  unfolding nearest_double_def using finite_double_0 by simp

lemma round_decimal_finite:
  assumes "1 \<le> c" and "round_decimal c e = Num y"
  shows "0 \<le> y \<and> nearest_double (of_int c * 10 powi e) y"
proof -
  from round_decimal_ratio [OF assms(1), of e] obtain n d where
    n: "1 \<le> n" and d: "1 \<le> d" and r: "round_decimal c e = round_ratio n d"
    and v: "(of_int n / of_int d :: rat) = of_int c * 10 powi e" by blast
  from assms(2) r have "round_ratio n d = Num y" by simp
  from round_ratio_finite [OF n d this] show ?thesis unfolding v .
qed

lemma round_decimal_overflow:
  assumes "1 \<le> c" and "round_decimal c e = Infinity b"
  shows "\<not> b \<and> overflow_threshold \<le> of_int c * 10 powi e"
proof -
  from round_decimal_ratio [OF assms(1), of e] obtain n d where
    n: "1 \<le> n" and d: "1 \<le> d" and r: "round_decimal c e = round_ratio n d"
    and v: "(of_int n / of_int d :: rat) = of_int c * 10 powi e" by blast
  from assms(2) r have "round_ratio n d = Infinity b" by simp
  from round_ratio_overflow [OF n d this] show ?thesis unfolding v .
qed

lemma toNumber_finite:
  assumes "toNumber (BN c e) = Num y"
  shows "nearest_double (of_int c * 10 powi e) y"
proof -
  consider "c = 0" | "1 \<le> c" | "c \<le> - 1" by linarith
  then show ?thesis
  proof cases
    case 1
    with assms show ?thesis using nearest_double_0 by simp
  next
    case 2
    with assms have "round_decimal c e = Num y" by simp
    from round_decimal_finite [OF 2 this] show ?thesis by simp
  next
    case 3
    then have c: "1 \<le> - c" by simp
    from 3 assms have "negate_number (round_decimal (- c) e) = Num y" by simp
    then have "round_decimal (- c) e = Num (- y)"
      by (cases "round_decimal (- c) e") auto
    from round_decimal_finite [OF c this]
    have "nearest_double (- (of_int c * 10 powi e)) (- y)" by simp
    then show ?thesis by (simp only: nearest_double_minus)
  qed
qed

lemma toNumber_overflow:
  assumes "toNumber (BN c e) = Infinity b"
  shows "overflow_threshold \<le> \<bar>of_int c * 10 powi e\<bar> \<and> b = (of_int c * 10 powi e < (0::rat))"
proof -
  have P: "(0::rat) < 10 powi e" by simp
  consider "c = 0" | "1 \<le> c" | "c \<le> - 1" by linarith
  then show ?thesis
  proof cases
    case 1
    with assms show ?thesis by simp
  next
    case 2
    with assms have "round_decimal c e = Infinity b" by simp
    from round_decimal_overflow [OF 2 this] have "\<not> b" and t: "overflow_threshold \<le> of_int c * 10 powi e"
      by simp_all
    moreover have "(0::rat) \<le> of_int c * 10 powi e" using 2 P by simp
    ultimately show ?thesis by simp
  next
    case 3
    then have c: "1 \<le> - c" by simp
    from 3 assms have "negate_number (round_decimal (- c) e) = Infinity b" by simp
    then have "round_decimal (- c) e = Infinity (\<not> b)"
      by (cases "round_decimal (- c) e") auto
    from round_decimal_overflow [OF c this]
    have "b" and t: "overflow_threshold \<le> - (of_int c * 10 powi e)" by simp_all
    moreover have "of_int c * 10 powi e < (0::rat)"
      using 3 P by (simp add: mult_neg_pos)
    ultimately show ?thesis by simp
  qed
qed

lemma toNumber_below_threshold:
  assumes "\<bar>of_int c * 10 powi e\<bar> < overflow_threshold"
  shows "\<exists>y. toNumber (BN c e) = Num y"
proof (cases "toNumber (BN c e)")
  case (Num y)
  then show ?thesis by blast
next
  case NaN
  with toNumber_not_NaN show ?thesis by blast
next
  case (Infinity b)
  from toNumber_overflow [OF this] assms show ?thesis by linarith
qed


lemma round_ratio_at_threshold:
  assumes n: "1 \<le> n" and d: "1 \<le> d" and t: "overflow_threshold \<le> of_int n / of_int d"
  shows "round_ratio n d = Infinity False"
proof -
  define x :: rat where "x = of_int n / of_int d"
  from round_ratio_grid [OF n d] obtain m u where
    m0: "0 \<le> m" and m53: "m \<le> 2 ^ 53" and u: "- 1074 \<le> u"
    and grid: "u = - 1074 \<or> (2 powi (u + 52) \<le> x \<and> 2 ^ 52 \<le> m)"
    and top: "x < 2 powi (u + 53)"
    and err: "\<bar>of_int m * 2 powi u - x\<bar> \<le> 2 powi u / 2"
    and tie: "\<bar>of_int m * 2 powi u - x\<bar> = 2 powi u / 2 \<longrightarrow> even m"
    and res: "round_ratio n d = (if 0 \<le> u \<and> 2 ^ 1024 \<le> m * 2 ^ nat u then Infinity False
                                else Num (of_int m * 2 powi u))"
    unfolding x_def by blast
  define ov where "ov = (0 \<le> u \<and> 2 ^ 1024 \<le> m * 2 ^ nat u)"
  from res have res': "round_ratio n d = (if ov then Infinity False else Num (of_int m * 2 powi u))"
    by (simp only: ov_def)
  define T :: rat where "T = 2 powi 971"
  have T0: "0 < T" by (simp add: T_def)
  have thr: "overflow_threshold = 9007199254740992 * T - T / 2"
    using threshold_val(1) by (simp add: T_def)
  have "(2::rat) powi 1023 = 4503599627370496 * T"
    using power_int_add [of "2::rat" 971 52] by (simp add: T_def)
  with thr T0 have "(2::rat) powi 1023 \<le> overflow_threshold" by linarith
  with t top have "(2::rat) powi 1023 < 2 powi (u + 53)" unfolding x_def by linarith
  have u971: "971 \<le> u"
  proof (rule ccontr)
    assume "\<not> 971 \<le> u"
    then have "u + 53 \<le> 1023" by simp
    then have "(2::rat) powi (u + 53) \<le> 2 powi 1023" by (intro power_int_increasing) auto
    with \<open>(2::rat) powi 1023 < 2 powi (u + 53)\<close> show False by linarith
  qed
  then have u0: "0 \<le> u" by simp
  from u971 grid have m52: "2 ^ 52 \<le> m" by auto
  have "2 ^ 1024 \<le> m * 2 ^ nat u"
  proof (cases "u = 971")
    case False
    with u971 have "972 \<le> nat u" by simp
    then have "(2::int) ^ 972 \<le> 2 ^ nat u" by (intro power_increasing) auto
    with m52 have "(2::int) ^ 52 * 2 ^ 972 \<le> m * 2 ^ nat u" by (intro mult_mono) auto
    then show ?thesis by (simp only: two_1024(1))
  next
    case True
    have e: "\<bar>of_int m * T - x\<bar> \<le> T / 2" using err True by (simp add: T_def)
    have "2 ^ 53 \<le> m"
    proof (rule ccontr)
      assume "\<not> 2 ^ 53 \<le> m"
      then have le: "m \<le> 2 ^ 53 - 1" by simp
      then have "(of_int m :: rat) \<le> of_int (2 ^ 53 - 1)" by (simp only: of_int_le_iff)
      then have "of_int m * T \<le> of_int (2 ^ 53 - 1) * T" using T0 by (intro mult_right_mono) auto
      then have mT: "of_int m * T \<le> 9007199254740991 * T" by simp
      from t have "overflow_threshold \<le> x" by (simp only: x_def)
      with thr have xT: "9007199254740992 * T - T / 2 \<le> x" by linarith
      from mT xT e have eq: "\<bar>of_int m * T - x\<bar> = T / 2" and "of_int m * T = 9007199254740991 * T"
        by linarith+
      then have "(of_int m :: rat) = 9007199254740991" using T0 by simp
      then have "(of_int m :: rat) = of_int 9007199254740991" by simp
      then have "m = 9007199254740991" by (simp only: of_int_eq_iff)
      then have "odd m" by simp
      moreover from tie eq True have "even m" by (simp add: T_def)
      ultimately show False by simp
    qed
    then have "(2::int) ^ 53 * 2 ^ 971 \<le> m * 2 ^ 971" by (intro mult_right_mono) auto
    then have "2 ^ 1024 \<le> m * 2 ^ 971" by (simp only: two_1024(2))
    with True show ?thesis by simp
  qed
  with u0 have ov unfolding ov_def by blast
  with res' show ?thesis by simp
qed

lemma toNumber_at_threshold:
  assumes "overflow_threshold \<le> \<bar>of_int c * 10 powi e\<bar>"
  shows "toNumber (BN c e) = Infinity (of_int c * 10 powi e < (0::rat))"
proof -
  define x :: rat where "x = of_int c * 10 powi e"
  have T0: "0 < overflow_threshold" by (simp add: overflow_threshold_def)
  have P: "(0::rat) < 10 powi e" by simp
  have pos: "round_decimal k e = Infinity False" if k: "1 \<le> k" and t: "overflow_threshold \<le> of_int k * 10 powi e" for k
  proof -
    from round_decimal_ratio [OF k, of e] obtain n d where
      n: "1 \<le> n" and d: "1 \<le> d" and r: "round_decimal k e = round_ratio n d"
      and v: "(of_int n / of_int d :: rat) = of_int k * 10 powi e" by blast
    from t have "overflow_threshold \<le> of_int n / of_int d" by (simp only: v)
    from round_ratio_at_threshold [OF n d this] r show ?thesis by simp
  qed
  from assms have a: "overflow_threshold \<le> \<bar>x\<bar>" by (simp only: x_def)
  have "toNumber (BN c e) = Infinity (x < 0)"
  proof -
    consider "c = 0" | "1 \<le> c" | "c \<le> - 1" by linarith
    then show ?thesis
    proof cases
      case 1
      then have "x = 0" by (simp add: x_def)
      with a T0 show ?thesis by simp
    next
      case 2
      then have "(0::rat) \<le> of_int c * 10 powi e" using P by simp
      then have x0: "0 \<le> x" by (simp only: x_def)
      with a have "overflow_threshold \<le> x" by simp
      then have "overflow_threshold \<le> of_int c * 10 powi e" by (simp only: x_def)
      from pos [OF 2 this] have "round_decimal c e = Infinity False" .
      moreover from x0 have "(x < 0) = False" by simp
      ultimately show ?thesis using 2 by simp
    next
      case 3
      then have c: "1 \<le> - c" by simp
      have "of_int c * 10 powi e < (0::rat)" using 3 P by (simp add: mult_neg_pos)
      then have x0: "x < 0" by (simp only: x_def)
      with a have "overflow_threshold \<le> - x" by simp
      then have "overflow_threshold \<le> of_int (- c) * 10 powi e" by (simp add: x_def)
      from pos [OF c this] have "round_decimal (- c) e = Infinity False" .
      moreover from x0 have "(x < 0) = True" by simp
      ultimately show ?thesis using 3 by simp
    qed
  qed
  then show ?thesis by (simp only: x_def)
qed

section \<open>A number printed and read back\<close>

text \<open>
  The decimal that \<^verbatim>\<open>String(v)\<close> prints rounds back to \<open>v\<close>, for every finite double
  \<open>v\<close>: each candidate of the search is tested against \<open>v\<close>, and the search cannot
  come back empty, since with seventeen digits the decimal just below \<open>v\<close> or the one
  just above is closer to \<open>v\<close> than half the distance to the next double
  (\<open>2^53 < 10^16\<close>). So the decimal constructor reads a price as a decimal whose
  nearest double is that price.
\<close>

lemma double_normal:
  assumes "0 < K" and "K < 2 ^ 53" and "- 1074 \<le> V"
  shows "\<exists>M U. (of_int K * 2 powi V :: rat) = of_int M * 2 powi U \<and> 0 < M \<and> M < 2 ^ 53
           \<and> - 1074 \<le> U \<and> U \<le> V \<and> (2 ^ 52 \<le> M \<or> U = - 1074)"
  using assms
proof (induction "nat (V + 1074)" arbitrary: K V)
  case 0
  then have "V = - 1074" by simp
  with 0 show ?case by (intro exI [of _ K] exI [of _ V]) simp
next
  case (Suc j)
  show ?case
  proof (cases "2 ^ 52 \<le> K")
    case True
    with Suc.prems show ?thesis by (intro exI [of _ K] exI [of _ V]) simp
  next
    case False
    have j: "j = nat (V - 1 + 1074)" using Suc.hyps(2) by simp
    have V1: "- 1074 \<le> V - 1" using Suc.hyps(2) by simp
    have K2: "0 < 2 * K" "2 * K < 2 ^ 53" using Suc.prems(1) False by simp_all
    from Suc.hyps(1) [OF j K2 V1] obtain M U where
      v: "(of_int (2 * K) * 2 powi (V - 1) :: rat) = of_int M * 2 powi U"
      and r: "0 < M" "M < 2 ^ 53" "- 1074 \<le> U" "U \<le> V - 1" "2 ^ 52 \<le> M \<or> U = - 1074"
      by blast
    have "(2::rat) powi V = 2 powi (V - 1) * 2" using power_int_add [of "2::rat" "V - 1" 1] by simp
    then have "(of_int K * 2 powi V :: rat) = of_int (2 * K) * 2 powi (V - 1)" by simp
    with v have "(of_int K * 2 powi V :: rat) = of_int M * 2 powi U" by simp
    with r show ?thesis by (intro exI [of _ M] exI [of _ U]) simp
  qed
qed

lemma double_spacing:
  assumes a: "a = of_int M * 2 powi U" and M: "0 < M" "M < 2 ^ 53" and U: "- 1074 \<le> U"
    and nrm: "2 ^ 52 \<le> M \<or> U = - 1074"
    and z: "finite_double z" and ne: "z \<noteq> a"
  shows "(a < z \<longrightarrow> 2 powi U \<le> z - a)
       \<and> (z < a \<longrightarrow> (if M = 2 ^ 52 \<and> U \<noteq> - 1074 then 2 powi (U - 1) else 2 powi U) \<le> a - z)"
proof -
  from z obtain K V where K: "\<bar>K\<bar> < 2 ^ 53" and V: "- 1074 \<le> V"
    and zv: "z = of_int K * 2 powi V" unfolding finite_double_def by blast
  have P: "(0::rat) < 2 powi U" by simp
  have half: "(2::rat) powi U = 2 * 2 powi (U - 1)"
    using power_int_add [of "2::rat" "U - 1" 1] by simp
  have Q: "(0::rat) < 2 powi (U - 1)" by simp
  show ?thesis
  proof (cases "U \<le> V")
    case True
    define K' where "K' = K * 2 ^ nat (V - U)"
    have "(2::rat) powi V = 2 powi (V - U) * 2 powi U"
      using power_int_add [of "2::rat" "V - U" U] by simp
    also have "(2::rat) powi (V - U) = of_int (2 ^ nat (V - U))"
      using True by (simp add: power_int_def)
    finally have zk: "z = of_int K' * 2 powi U" by (simp add: zv K'_def)
    from ne have "K' \<noteq> M" by (auto simp: zk a)
    have up: "2 powi U \<le> z - a" if "a < z"
    proof -
      from that P have "(of_int M :: rat) < of_int K'" by (simp add: zk a)
      then have "M < K'" by (simp only: of_int_less_iff)
      then have "M + 1 \<le> K'" by simp
      then have "(of_int (M + 1) :: rat) \<le> of_int K'" by (simp only: of_int_le_iff)
      then have "of_int (M + 1) * 2 powi U \<le> of_int K' * (2::rat) powi U"
        using P by (intro mult_right_mono) auto
      then show ?thesis by (simp add: zk a algebra_simps)
    qed
    have down: "2 powi U \<le> a - z" if "z < a"
    proof -
      from that P have "(of_int K' :: rat) < of_int M" by (simp add: zk a)
      then have "K' < M" by (simp only: of_int_less_iff)
      then have "K' + 1 \<le> M" by simp
      then have "(of_int (K' + 1) :: rat) \<le> of_int M" by (simp only: of_int_le_iff)
      then have "of_int (K' + 1) * 2 powi U \<le> of_int M * (2::rat) powi U"
        using P by (intro mult_right_mono) auto
      then show ?thesis by (simp add: zk a algebra_simps)
    qed
    from up down half Q show ?thesis by auto
  next
    case False
    with V have U1: "U \<noteq> - 1074" by simp
    with nrm have M52: "2 ^ 52 \<le> M" by simp
    have "\<bar>z\<bar> = of_int \<bar>K\<bar> * 2 powi V" by (simp add: zv abs_mult)
    also have "\<dots> \<le> of_int (2 ^ 53 - 1) * 2 powi V"
    proof (rule mult_right_mono)
      have "\<bar>K\<bar> \<le> 2 ^ 53 - 1" using K by simp
      then show "(of_int \<bar>K\<bar> :: rat) \<le> of_int (2 ^ 53 - 1)" by (simp only: of_int_le_iff)
      show "(0::rat) \<le> 2 powi V" by simp
    qed
    also have "\<dots> \<le> of_int (2 ^ 53 - 1) * 2 powi (U - 1)"
    proof (rule mult_left_mono)
      show "(2::rat) powi V \<le> 2 powi (U - 1)" using False by (intro power_int_increasing) auto
      show "(0::rat) \<le> of_int (2 ^ 53 - 1)" by simp
    qed
    finally have zb': "\<bar>z\<bar> \<le> of_int (2 ^ 53 - 1) * 2 powi (U - 1)" .
    define q :: rat where "q = 2 powi (U - 1)"
    have q0: "0 < q" by (simp add: q_def)
    have pq: "2 powi U = 2 * q" unfolding q_def by (rule half)
    from zb' have zb: "\<bar>z\<bar> \<le> 9007199254740991 * q" by (simp add: q_def)
    have "(of_int (2 ^ 52) :: rat) \<le> of_int M" using M52 by (simp only: of_int_le_iff)
    then have "of_int (2 ^ 52) * (2 * q) \<le> of_int M * (2 * q)"
      using q0 by (intro mult_right_mono) auto
    then have al: "9007199254740992 * q \<le> a" by (simp add: a pq)
    have za: "z < a" using zb al q0 by linarith
    have "q \<le> a - z" using zb al q0 by linarith
    then have "2 powi (U - 1) \<le> a - z" by (simp only: q_def)
    moreover have "2 powi U \<le> a - z" if "M \<noteq> 2 ^ 52"
    proof -
      from that M52 have "2 ^ 52 + 1 \<le> M" by simp
      then have "(of_int (2 ^ 52 + 1) :: rat) \<le> of_int M" by (simp only: of_int_le_iff)
      then have "of_int (2 ^ 52 + 1) * (2 * q) \<le> of_int M * (2 * q)"
        using q0 by (intro mult_right_mono) auto
      then have "9007199254740994 * q \<le> a" by (simp add: a pq)
      with zb q0 have "2 * q \<le> a - z" by linarith
      then show ?thesis by (simp only: pq)
    qed
    ultimately show ?thesis using za U1 by auto
  qed
qed


lemma round_ratio_to_double:
  assumes a: "a = of_int M * 2 powi U" and M: "0 < M" "M < 2 ^ 53" and U: "- 1074 \<le> U" "U \<le> 971"
    and nrm: "2 ^ 52 \<le> M \<or> U = - 1074"
    and n: "1 \<le> n" and d: "1 \<le> d"
    and close: "(a \<le> of_int n / of_int d \<and> of_int n / of_int d - a < 2 powi U / 2)
        \<or> (of_int n / of_int d \<le> a
            \<and> a - of_int n / of_int d
                < (if M = 2 ^ 52 \<and> U \<noteq> - 1074 then 2 powi (U - 1) else 2 powi U) / 2)"
  shows "round_ratio n d = Num a"
proof -
  define D :: rat where "D = of_int n / of_int d"
  define g :: rat where "g = (if M = 2 ^ 52 \<and> U \<noteq> - 1074 then 2 powi (U - 1) else 2 powi U)"
  define P :: rat where "P = 2 powi U"
  have P0: "0 < P" by (simp add: P_def)
  have g0: "0 < g" by (simp add: g_def)
  have "(2::rat) powi U = 2 * 2 powi (U - 1)"
    using power_int_add [of "2::rat" "U - 1" 1] by simp
  then have gP: "g \<le> P" "P \<le> 2 * g" by (simp_all add: g_def P_def)
  from close have close': "(a \<le> D \<and> D - a < P / 2) \<or> (D \<le> a \<and> a - D < g / 2)"
    by (simp only: D_def g_def P_def)
  have fa: "finite_double a"
    unfolding finite_double_def using a M U by (intro exI [of _ M] exI [of _ U]) simp
  define T :: rat where "T = 2 powi 971"
  have T0: "0 < T" by (simp add: T_def)
  have thr: "overflow_threshold = 9007199254740992 * T - T / 2"
    using threshold_val(1) by (simp add: T_def)
  have PT: "P \<le> T" unfolding P_def T_def using U(2) by (intro power_int_increasing) auto
  have "(of_int M :: rat) \<le> of_int (2 ^ 53 - 1)" using M(2) by (simp only: of_int_le_iff)
  then have "of_int M * P \<le> of_int (2 ^ 53 - 1) * P" using P0 by (intro mult_right_mono) auto
  also have "\<dots> \<le> of_int (2 ^ 53 - 1) * T" using PT by (intro mult_left_mono) auto
  finally have aT: "a \<le> 9007199254740991 * T" by (simp add: a P_def)
  have below: "D < overflow_threshold" using close' aT PT gP P0 T0 unfolding thr by linarith
  from round_ratio_cases [of n d] show ?thesis
  proof
    assume "round_ratio n d = Infinity False"
    from round_ratio_overflow [OF n d this] below show ?thesis by (simp add: D_def)
  next
    assume "\<exists>y. round_ratio n d = Num y"
    then obtain y where y: "round_ratio n d = Num y" by blast
    from round_ratio_finite [OF n d y] have fy: "finite_double y"
      and best: "\<bar>y - D\<bar> \<le> \<bar>a - D\<bar>"
      using fa unfolding nearest_double_def D_def by blast+
    have "y = a"
    proof (rule ccontr)
      assume ne: "y \<noteq> a"
      from double_spacing [OF a M U(1) nrm fy ne]
      have up: "a < y \<Longrightarrow> P \<le> y - a" and down: "y < a \<Longrightarrow> g \<le> a - y"
        by (simp_all only: P_def g_def)
      from ne consider "a < y" | "y < a" by linarith
      then show False
      proof cases
        case 1
        from up [OF 1] close' best gP g0 show False by linarith
      next
        case 2
        from down [OF 2] close' best gP g0 show False by linarith
      qed
    qed
    with y show ?thesis by simp
  qed
qed

lemma round_ratio_nonpos:
  assumes "n \<le> 0" and "1 \<le> d" and "round_ratio n d = Num y"
  shows "y \<le> 0"
proof -
  define u where "u = max (floor_log 2 n d - 52) (- 1074)"
  define m where "m = (if 0 \<le> u then round_half_even_div n (d * 2 ^ nat u)
               else round_half_even_div (n * 2 ^ nat (- u)) d)"
  have "m \<le> 0"
  proof (cases "0 \<le> u")
    case True
    have "0 < d * 2 ^ nat u" using assms(2) by simp
    moreover have "(of_int n / of_int (d * 2 ^ nat u) :: rat) \<le> of_int 0"
      using assms by (simp add: divide_nonpos_pos)
    ultimately have "round_half_even_div n (d * 2 ^ nat u) \<le> 0"
      by (rule round_half_even_div_mono)
    with True show ?thesis by (simp add: m_def)
  next
    case False
    define w where "w = n * 2 ^ nat (- u)"
    have d0: "0 < d" using assms(2) by simp
    have "w \<le> 0" using assms(1) by (simp add: w_def mult_nonpos_nonneg)
    then have "(of_int w / of_int d :: rat) \<le> 0" using d0 by (simp add: divide_nonpos_pos)
    then have "(of_int w / of_int d :: rat) \<le> of_int 0" by simp
    with d0 have "round_half_even_div w d \<le> 0" by (rule round_half_even_div_mono)
    then have "round_half_even_div (n * 2 ^ nat (- u)) d \<le> 0" by (simp only: w_def)
    with False show ?thesis by (simp add: m_def)
  qed
  then have mr: "(of_int m :: rat) \<le> 0" by simp
  have "round_ratio n d = (if 0 \<le> u \<and> 2 ^ 1024 \<le> m * 2 ^ nat u then Infinity False
                                else Num (of_int m * 2 powi u))"
    by (simp only: round_ratio_def Let_def u_def [symmetric] m_def [symmetric])
  with assms(3) have "y = of_int m * 2 powi u" by (auto split: if_splits)
  with mr show ?thesis by (simp add: mult_nonpos_nonneg)
qed


lemma int_div_bounds:
  assumes "0 < (q::int)"
  shows "(of_int (n div q) :: rat) * of_int q \<le> of_int n"
    and "(of_int n :: rat) < (of_int (n div q) + 1) * of_int q"
proof -
  define k where "k = n div q"
  define r where "r = n mod q"
  have e: "q * k + r = n" by (simp add: k_def r_def)
  have r: "0 \<le> r" "r < q" using assms by (simp_all add: r_def)
  from e r have "q * k \<le> n" by linarith
  then have "(of_int (q * k) :: rat) \<le> of_int n" by (simp only: of_int_le_iff)
  then show "(of_int (n div q) :: rat) * of_int q \<le> of_int n" by (simp add: k_def mult.commute)
  from e r have "n < q * k + q" by linarith
  then have "(of_int n :: rat) < of_int (q * k + q)" by (simp only: of_int_less_iff)
  then show "(of_int n :: rat) < (of_int (n div q) + 1) * of_int q"
    by (simp add: k_def algebra_simps)
qed

lemma decimal_floor:
  fixes x :: int
  assumes n: "1 \<le> n" and d: "1 \<le> d"
  defines "s \<equiv> (if 0 \<le> x then n div (d * 10 ^ nat x) else (n * 10 ^ nat (- x)) div d)"
  shows "of_int s * 10 powi x \<le> (of_int n / of_int d :: rat)"
    and "(of_int n / of_int d :: rat) < (of_int s + 1) * 10 powi x"
proof -
  have D: "(0::rat) < of_int d" using d by simp
  have both: "of_int s * 10 powi x \<le> (of_int n / of_int d :: rat)
      \<and> (of_int n / of_int d :: rat) < (of_int s + 1) * 10 powi x"
  proof (cases "0 \<le> x")
    case True
    define q where "q = d * 10 ^ nat x"
    have q0: "0 < q" using d by (simp add: q_def)
    have sq: "s = n div q" using True by (simp add: s_def q_def)
    have Q: "(of_int q :: rat) = of_int d * 10 powi x" using True by (simp add: q_def power_int_def)
    from int_div_bounds [OF q0, of n] show ?thesis
      unfolding sq [symmetric] Q using D by (simp add: field_simps)
  next
    case False
    define t :: int where "t = 10 ^ nat (- x)"
    have t0: "(0::rat) < of_int t" by (simp add: t_def)
    have d0: "0 < d" using d by simp
    have sq: "s = (n * t) div d" using False by (simp add: s_def t_def)
    have T: "(10::rat) powi x = 1 / of_int t"
      using False by (simp add: t_def power_int_def power_inverse field_simps)
    from int_div_bounds [OF d0, of "n * t"]
    have "of_int s * of_int d \<le> (of_int n * of_int t :: rat)"
      and "(of_int n * of_int t :: rat) < (of_int s + 1) * of_int d"
      unfolding sq [symmetric] by simp_all
    then show ?thesis unfolding T using D t0 by (simp add: field_simps)
  qed
  from both show "of_int s * 10 powi x \<le> (of_int n / of_int d :: rat)" by simp
  from both show "(of_int n / of_int d :: rat) < (of_int s + 1) * 10 powi x" by simp
qed

lemma seventeen_digits:
  assumes a: "(of_int n / of_int d :: rat) = of_int M * 2 powi U"
    and M: "0 < M" "M < 2 ^ 53" and U: "- 1074 \<le> U" "U \<le> 971"
    and nrm: "2 ^ 52 \<le> M \<or> U = - 1074"
    and n: "1 \<le> n" and d: "1 \<le> d"
  defines "x \<equiv> floor_log 10 n d - 17 + 1"
  defines "s \<equiv> (if 0 \<le> x then n div (d * 10 ^ nat x) else (n * 10 ^ nat (- x)) div d)"
  shows "round_decimal s x = Num (of_int n / of_int d)
       \<or> round_decimal (s + 1) x = Num (of_int n / of_int d)"
proof -
  define A :: rat where "A = of_int n / of_int d"
  define T :: rat where "T = 10 powi x"
  define P :: rat where "P = 2 powi U"
  define g :: rat where "g = (if M = 2 ^ 52 \<and> U \<noteq> - 1074 then 2 powi (U - 1) else 2 powi U)"
  have T0: "0 < T" by (simp add: T_def)
  have P0: "0 < P" by (simp add: P_def)
  have AP: "A = of_int M * P" unfolding A_def P_def by (rule a)
  from decimal_floor [OF n d, of x]
  have lo: "of_int s * T \<le> A" and hi: "A < (of_int s + 1) * T"
    unfolding s_def [symmetric] A_def T_def by simp_all
  have D: "(0::rat) < of_int d" using d by simp
  from floor_log_spec [of 10 n d] n d have "below 10 n d (floor_log 10 n d)" by simp
  then have "10 powi (floor_log 10 n d) \<le> A"
    using D by (simp add: below_def A_def field_simps)
  moreover have "(10::rat) powi (floor_log 10 n d) = 10 powi x * 10 ^ 16"
    using power_int_add [of "10::rat" x 16] by (simp add: x_def)
  ultimately have dec: "10000000000000000 * T \<le> A" by (simp add: T_def)
  have "(of_int M :: rat) \<le> of_int (2 ^ 53 - 1)" using M(2) by (simp only: of_int_le_iff)
  then have "of_int M * P \<le> of_int (2 ^ 53 - 1) * P" using P0 by (intro mult_right_mono) auto
  then have AM: "A \<le> 9007199254740991 * P" by (simp add: AP)
  have TP: "T < P" using dec AM T0 P0 by linarith
  have "(2::rat) powi U = 2 * 2 powi (U - 1)"
    using power_int_add [of "2::rat" "U - 1" 1] by simp
  then have gh: "M = 2 ^ 52 \<and> U \<noteq> - 1074 \<Longrightarrow> P = 2 * g" and gf: "\<not> (M = 2 ^ 52 \<and> U \<noteq> - 1074) \<Longrightarrow> g = P"
    by (simp_all add: g_def P_def)
  have Tg: "T < g"
  proof (cases "M = 2 ^ 52 \<and> U \<noteq> - 1074")
    case True
    then have "A = 4503599627370496 * P" by (simp add: AP)
    with dec gh [OF True] T0 P0 show ?thesis by linarith
  next
    case False
    with gf TP show ?thesis by simp
  qed
  from dec lo hi T0 have "(10000000000000000::rat) < of_int s + 1"
  proof -
    have "10000000000000000 * T < (of_int s + 1) * T" using dec hi by linarith
    then show ?thesis using T0 by (simp only: mult_less_cancel_right_pos)
  qed
  then have "(of_int 10000000000000000 :: rat) < of_int (s + 1)" by simp
  then have "10000000000000000 < s + 1" by (simp only: of_int_less_iff)
  then have s1: "1 \<le> s" and s2: "1 \<le> s + 1" by simp_all
  show ?thesis
  proof (cases "A - of_int s * T \<le> T / 2")
    case True
    from round_decimal_ratio [OF s1, of x] obtain n' d' where
      n': "1 \<le> n'" and d': "1 \<le> d'" and r: "round_decimal s x = round_ratio n' d'"
      and v: "(of_int n' / of_int d' :: rat) = of_int s * T" unfolding T_def by blast
    have "round_ratio n' d' = Num A"
    proof (rule round_ratio_to_double [OF AP [unfolded P_def] M U nrm n' d'])
      have "of_int s * T \<le> A \<and> A - of_int s * T < g / 2" using lo True Tg by linarith
      then show "A \<le> of_int n' / of_int d' \<and> of_int n' / of_int d' - A < 2 powi U / 2 \<or>
        of_int n' / of_int d' \<le> A \<and>
        A - of_int n' / of_int d'
          < (if M = 2 ^ 52 \<and> U \<noteq> - 1074 then 2 powi (U - 1) else 2 powi U) / 2"
        unfolding v g_def by blast
    qed
    with r show ?thesis by (simp add: A_def)
  next
    case False
    from round_decimal_ratio [OF s2, of x] obtain n' d' where
      n': "1 \<le> n'" and d': "1 \<le> d'" and r: "round_decimal (s + 1) x = round_ratio n' d'"
      and v: "(of_int n' / of_int d' :: rat) = (of_int s + 1) * T" unfolding T_def by auto
    have "round_ratio n' d' = Num A"
    proof (rule round_ratio_to_double [OF AP [unfolded P_def] M U nrm n' d'])
      have "A \<le> (of_int s + 1) * T \<and> (of_int s + 1) * T - A < P / 2"
        using hi False TP by (simp add: algebra_simps)
      then show "A \<le> of_int n' / of_int d' \<and> of_int n' / of_int d' - A < 2 powi U / 2 \<or>
        of_int n' / of_int d' \<le> A \<and>
        A - of_int n' / of_int d'
          < (if M = 2 ^ 52 \<and> U \<noteq> - 1074 then 2 powi (U - 1) else 2 powi U) / 2"
        unfolding v P_def by blast
    qed
    with r show ?thesis by (simp add: A_def)
  qed
qed


lemma candidates_shape:
  fixes n d k :: int
  defines "x \<equiv> floor_log 10 n d - k + 1"
  defines "s \<equiv> (if 0 \<le> x then n div (d * 10 ^ nat x) else (n * 10 ^ nat (- x)) div d)"
  defines "ok \<equiv> filter (\<lambda>s. round_decimal s x = Num (of_int n / of_int d)) [s, s + 1]"
  shows "set (candidates n d k) \<subseteq> (\<lambda>s. (s, x)) ` set ok"
    and "ok \<noteq> [] \<Longrightarrow> candidates n d k \<noteq> []"
proof -
  have c: "candidates n d k =
      (case ok of
           [lo, hi] \<Rightarrow>
             (if (if 0 \<le> x
                  then (lo + hi) * 10 ^ nat x * d < 2 * n \<or>
                       ((lo + hi) * 10 ^ nat x * d = 2 * n \<and> odd lo)
                  else (lo + hi) * d < 2 * n * 10 ^ nat (- x) \<or>
                       ((lo + hi) * d = 2 * n * 10 ^ nat (- x) \<and> odd lo))
              then [(hi, x)] else [(lo, x)])
         | _ \<Rightarrow> map (\<lambda>s. (s, x)) ok)"
    by (simp only: candidates_def Let_def x_def [symmetric] s_def [symmetric] ok_def [symmetric])
  show "set (candidates n d k) \<subseteq> (\<lambda>s. (s, x)) ` set ok"
    unfolding c by (auto split: list.splits)
  show "ok \<noteq> [] \<Longrightarrow> candidates n d k \<noteq> []"
    unfolding c by (auto split: list.splits)
qed

lemma filter_member: "y \<in> set (filter P xs) \<Longrightarrow> P y"
  by simp

lemma candidates_sound:
  assumes "sx \<in> set (candidates n d k)"
  shows "round_decimal (fst sx) (snd sx) = Num (of_int n / of_int d)"
proof -
  from candidates_shape(1) [of n d k] assms obtain s' x' where sx: "sx = (s', x')"
    and m: "s' \<in> set (filter (\<lambda>s. round_decimal s x' = Num (of_int n / of_int d))
        [(if 0 \<le> x' then n div (d * 10 ^ nat x') else (n * 10 ^ nat (- x')) div d),
         (if 0 \<le> x' then n div (d * 10 ^ nat x') else (n * 10 ^ nat (- x')) div d) + 1])"
    by blast
  from filter_member [OF m] show ?thesis by (simp only: sx fst_conv snd_conv)
qed

lemma shortest_from_sound:
  "shortest_from n d ks = Some sx \<Longrightarrow> round_decimal (fst sx) (snd sx) = Num (of_int n / of_int d)"
proof (induction ks)
  case Nil
  then show ?case by simp
next
  case (Cons k ks)
  show ?case
  proof (cases "candidates n d k")
    case Nil
    with Cons show ?thesis by simp
  next
    case (Cons c cs)
    with Cons.prems have "sx = c" by simp
    with Cons have "sx \<in> set (candidates n d k)" by simp
    then show ?thesis by (rule candidates_sound)
  qed
qed

lemma shortest_from_found:
  "k \<in> set ks \<Longrightarrow> candidates n d k \<noteq> [] \<Longrightarrow> \<exists>sx. shortest_from n d ks = Some sx"
  by (induction ks) (auto split: list.splits)

lemma round_decimal_nonpos:
  assumes "c \<le> 0" and "round_decimal c e = Num y"
  shows "y \<le> 0"
proof (cases "0 \<le> e")
  case True
  have "c * 10 ^ nat e \<le> 0" using assms(1) by (simp add: mult_nonpos_nonneg)
  moreover from True assms(2) have "round_ratio (c * 10 ^ nat e) 1 = Num y"
    by (simp add: round_decimal_def)
  ultimately show ?thesis using round_ratio_nonpos by blast
next
  case False
  have "(1::int) \<le> 10 ^ nat (- e)" by simp
  moreover from False assms(2) have "round_ratio c (10 ^ nat (- e)) = Num y"
    by (simp add: round_decimal_def)
  ultimately show ?thesis using round_ratio_nonpos assms(1) by blast
qed

lemma shortest_decimal_rounds_back:
  assumes p: "finite_double a" and pos: "0 < a"
  shows "0 < fst (shortest_decimal a)
       \<and> round_decimal (fst (shortest_decimal a)) (snd (shortest_decimal a)) = Num a"
proof -
  obtain n d where q: "quotient_of a = (n, d)" by (cases "quotient_of a") auto
  then have d0: "0 < d" and av: "a = of_int n / of_int d"
    using quotient_of_denom_pos [OF q] quotient_of_div [OF q] by simp_all
  have d1: "1 \<le> d" using d0 by simp
  have "(0::rat) < of_int n" using pos d0 by (simp add: av zero_less_divide_iff)
  then have "0 < n" by simp
  then have n1: "1 \<le> n" by simp
  from p obtain K V where K: "\<bar>K\<bar> < 2 ^ 53" and V: "- 1074 \<le> V" "V \<le> 971"
    and aK: "a = of_int K * 2 powi V" unfolding finite_double_def by blast
  have "(0::rat) < 2 powi V" by simp
  with pos have "(0::rat) < of_int K" unfolding aK by (rule zero_less_mult_pos2)
  then have K0: "0 < K" by simp
  with K have K53: "K < 2 ^ 53" by simp
  from double_normal [OF K0 K53 V(1)] obtain M U where
    aM: "a = of_int M * 2 powi U" and M: "0 < M" "M < 2 ^ 53"
    and U: "- 1074 \<le> U" "U \<le> V" and nrm: "2 ^ 52 \<le> M \<or> U = - 1074"
    unfolding aK by blast
  have U971: "U \<le> 971" using U(2) V(2) by simp
  have a': "(of_int n / of_int d :: rat) = of_int M * 2 powi U" using aM av by simp
  define x where "x = floor_log 10 n d - 17 + 1"
  define s where "s = (if 0 \<le> x then n div (d * 10 ^ nat x) else (n * 10 ^ nat (- x)) div d)"
  from seventeen_digits [OF a' M U(1) U971 nrm n1 d1]
  have "filter (\<lambda>s. round_decimal s x = Num (of_int n / of_int d)) [s, s + 1] \<noteq> []"
    unfolding x_def s_def by auto
  then have "candidates n d 17 \<noteq> []"
    unfolding x_def s_def by (rule candidates_shape(2))
  then obtain sx where sx: "shortest_from n d [1, 2, 3, 4, 5, 6, 7, 8, 9, 10, 11, 12, 13, 14, 15, 16, 17] = Some sx"
    using shortest_from_found [of 17 "[1, 2, 3, 4, 5, 6, 7, 8, 9, 10, 11, 12, 13, 14, 15, 16, 17]" n d]
    by auto
  then have sd: "shortest_decimal a = sx" by (simp add: shortest_decimal_def q)
  from shortest_from_sound [OF sx] have r: "round_decimal (fst sx) (snd sx) = Num a"
    by (simp add: av)
  have "0 < fst sx"
  proof (rule ccontr)
    assume "\<not> 0 < fst sx"
    then have "fst sx \<le> 0" by simp
    from round_decimal_nonpos [OF this r] pos show False by simp
  qed
  with r sd show ?thesis by simp
qed

lemma toNumber_of_number:
  assumes "finite_double p"
  shows "toNumber (BigNumber_of_number (Num p)) = Num p"
proof -
  consider "p = 0" | "0 < p" | "p < 0" by linarith
  then show ?thesis
  proof cases
    case 1
    then show ?thesis by simp
  next
    case 2
    obtain s x where sd: "shortest_decimal p = (s, x)" by (cases "shortest_decimal p") auto
    from shortest_decimal_rounds_back [OF assms 2] have s: "0 < s" and r: "round_decimal s x = Num p"
      by (simp_all add: sd)
    from 2 have "\<bar>p\<bar> = p" by simp
    with 2 sd have "BigNumber_of_number (Num p) = BN s x" by simp
    with s r show ?thesis by simp
  next
    case 3
    then have pos: "0 < - p" by simp
    have f: "finite_double (- p)" using assms by (simp add: finite_double_minus)
    obtain s x where sd: "shortest_decimal (- p) = (s, x)" by (cases "shortest_decimal (- p)") auto
    from shortest_decimal_rounds_back [OF f pos] have s: "0 < s" and r: "round_decimal s x = Num (- p)"
      by (simp_all add: sd)
    from 3 have "\<bar>p\<bar> = - p" by simp
    with 3 sd have "BigNumber_of_number (Num p) = BN (- s) x" by simp
    with s r show ?thesis by simp
  qed
qed



lemma finite_double_5_2: "finite_double (5 / 2)"
  unfolding finite_double_def by (rule exI [of _ 5], rule exI [of _ "- 1"]) simp

lemma product_value:
  assumes "BigNumber_of_number (Num p) = BN c e"
  shows "multipliedBy (convertToDecimal raw d) (Num p) = BN (raw * c) (- d + e)"
    and "of_int (raw * c) * 10 powi (- d + e) = (of_int raw * 10 powi (- d)) * (of_int c * 10 powi e :: rat)"
proof -
  show "multipliedBy (convertToDecimal raw d) (Num p) = BN (raw * c) (- d + e)"
    by (simp only: multipliedBy_def convertToDecimal_BN assms times_big.simps)
  have "(10::rat) powi (- d + e) = 10 powi (- d) * 10 powi e"
    by (rule power_int_add) simp
  then show "of_int (raw * c) * 10 powi (- d + e) = (of_int raw * 10 powi (- d)) * (of_int c * 10 powi e :: rat)"
    by (simp only: of_int_mult mult_ac)
qed

lemma price_read_back:
  assumes "finite_double p" and "BigNumber_of_number (Num p) = BN c e"
  shows "toNumber (BN c e) = Num p" and "nearest_double (of_int c * 10 powi e) p"
proof -
  from toNumber_of_number [OF assms(1)] show t: "toNumber (BN c e) = Num p" by (simp only: assms(2))
  from toNumber_finite [OF t] show "nearest_double (of_int c * 10 powi e) p" .
qed

text \<open>
  The price \<^verbatim>\<open>1e308\<close> is printed with one digit. The evaluation goes through the
  characterisation of \<open>floor_log\<close>, not through its digit count.
\<close>

lemma BigNumber_of_1e308:
  "BigNumber_of_number (Num (5010420900022432 * 2 ^ 971)) = BN 1 308"
proof -
  define N :: int where "N = 5010420900022432 * 2 ^ 971"
  define T :: int where "T = 10 ^ 308"
  have q: "(5010420900022432 * 2 ^ 971 :: rat) = of_int N" by (simp add: N_def)
  have N0: "0 < N" by (simp add: N_def)
  have T1: "1 \<le> T" and T2: "1 \<le> 2 * T" by (simp_all add: T_def)
  have f10: "floor_log 10 N 1 = 308"
    using N0 by (intro floor_log_unique) (simp_all add: below_def N_def)
  have f2: "floor_log 2 T 1 = 1023"
    using T1 by (intro floor_log_unique) (simp_all add: below_def T_def)
  have f2': "floor_log 2 (2 * T) 1 = 1024"
    using T2 by (intro floor_log_unique) (simp_all add: below_def T_def)
  have "round_ratio T 1 = Num (of_int N)"
    unfolding round_ratio_def f2 by (simp add: Let_def round_half_even_div_def T_def N_def)
  moreover have "round_decimal 1 308 = round_ratio T 1" by (simp add: round_decimal_def T_def)
  ultimately have rd1: "round_decimal 1 308 = Num (of_int N)" by simp
  have "round_ratio (2 * T) 1 = Infinity False"
    unfolding round_ratio_def f2' by (simp add: Let_def round_half_even_div_def T_def)
  moreover have "round_decimal 2 308 = round_ratio (2 * T) 1" by (simp add: round_decimal_def T_def)
  ultimately have rd2: "round_decimal 2 308 = Infinity False" by simp
  have dv: "N div T = 1" by (simp add: N_def T_def)
  have Tp: "1 * 10 ^ nat (308 - 1 + 1) = T" by (simp add: T_def)
  have cand: "candidates N 1 1 = [(1, 308)]"
    unfolding candidates_def f10 Let_def Tp dv by (simp add: rd1 rd2)
  have sd: "shortest_decimal (of_int N) = (1, 308)"
    unfolding shortest_decimal_def quotient_of_int by (simp add: cand)
  have "(of_int N :: rat) \<noteq> 0" "\<bar>of_int N :: rat\<bar> = of_int N" "\<not> (of_int N :: rat) < 0"
    using N0 by simp_all
  then have "BigNumber_of_number (Num (of_int N)) = BN 1 308"
    by (simp only: BigNumber_of_number.simps sd if_False Let_def prod.case)
  then show ?thesis by (simp only: q)
qed

lemma finite_double_1e308: "finite_double (5010420900022432 * 2 ^ 971)"
  unfolding finite_double_def by (rule exI [of _ 5010420900022432], rule exI [of _ 971]) simp

section \<open>What a run returns\<close>

text \<open>
  A run that returns details passed the address check and found the mint; the record
  is then built from the mint and from what the three best-effort steps left.
\<close>

lemma result_of_run:
  assumes "getTokenDetails w a = (Some r, cs)"
  shows "PublicKey_valid w a"
    and "\<exists>m. getMint w a = Some m \<and>
          r = \<lparr> address = a,
                name = or_else (fst (fst (metadata_step w a))) (Some ''N?A''),
                symbol = or_else (fst (snd (fst (metadata_step w a)))) (Some ''N/A''),
                imageURL = snd (snd (fst (metadata_step w a))),
                decimals = mint_decimals m,
                totalSupply = toFormat (convertToDecimal (mint_supply m) (mint_decimals m)),
                totalSupplyRaw = mint_supply m,
                mintAuthority = or_else (mint_mintAuthority m) None,
                freezeAuthority = or_else (mint_freezeAuthority m) None,
                price = price_step w a,
                marketcCap = marketCap_step (price_step w a) (mint_supply m) (mint_decimals m),
                liquidityUsd = fst (overview_step w a),
                holders = fst (snd (overview_step w a)),
                volume24h = snd (snd (overview_step w a)) \<rparr>"
  using assms
  by (auto simp: getTokenDetails_def Let_def split: if_splits option.splits prod.splits)

lemma run_of_mint:
  assumes "PublicKey_valid w a" and "getMint w a = Some m"
  shows "\<exists>r cs. getTokenDetails w a = (Some r, cs)"
  using assms by (simp add: getTokenDetails_def Let_def split: prod.splits)

lemma metadata_step_no_record:
  "findByMint w a = None \<Longrightarrow> fst (metadata_step w a) = (None, None, None)"
  by (simp add: metadata_step_def)

lemma metadata_step_no_document:
  assumes "findByMint w a = Some nft" and "nft_uri nft \<noteq> []"
    and "get_metadata_json w (nft_uri nft) = Rejected \<or> get_metadata_json w (nft_uri nft) = Resolved None
         \<or> get_metadata_json w (nft_uri nft) =
             Resolved (Some \<lparr> json_image = None, json_name = None, json_symbol = None \<rparr>)"
  shows "fst (metadata_step w a) = (Some (nft_name nft), Some (nft_symbol nft), None)"
  using assms by (auto simp: metadata_step_def Let_def)

lemma metadata_step_document:
  assumes "findByMint w a = Some nft" and "nft_uri nft \<noteq> []"
    and "get_metadata_json w (nft_uri nft) = Resolved (Some data)"
  shows "fst (metadata_step w a) =
           (if nft_name nft = [] \<and> truthy_string (json_name data) then json_name data
            else Some (nft_name nft),
            if nft_symbol nft = [] \<and> truthy_string (json_symbol data) then json_symbol data
            else Some (nft_symbol nft),
            json_image data)"
  using assms by (simp add: metadata_step_def Let_def)

lemma steps_ignore_price:
  "metadata_step (w \<lparr> get_price := f \<rparr>) a = metadata_step w a"
  "overview_step (w \<lparr> get_price := f \<rparr>) a = overview_step w a"
  by (simp_all add: metadata_step_def overview_step_def Let_def split: option.splits)

lemma price_step_falsy:
  "price_step (w \<lparr> get_price := (\<lambda>u. Resolved (Some (Num 0))) \<rparr>) a = None"
  "price_step (w \<lparr> get_price := (\<lambda>u. Resolved None) \<rparr>) a = None"
  "price_step (w \<lparr> get_price := (\<lambda>u. Rejected) \<rparr>) a = None"
  by (simp_all add: price_step_def)


lemma run_overflow_world:
  assumes "getTokenDetails overflow_world ''MINT'' = (Some r, cs)"
  shows "price r = Some (Num (5010420900022432 * 2 ^ 971))"
    and "totalSupplyRaw r = 100" and "decimals r = 0"
  using result_of_run(2) [OF assms]
  by (auto simp: overflow_world_def sample_world_def sample_mint_def price_step_def)

section \<open>The decimal converter is exact\<close>

text \<open>
  C2. For every non-negative raw amount and every count of decimal places \<open>d \<ge> 0\<close>,
  the value of \<open>convertToDecimal raw d\<close> is the rational \<open>raw / 10^d\<close>: the amount is
  printed, read back and shifted without any rounding. For the raw amount
  123456789012345678 and nine decimal places the value is 123456789.012345678, which
  \<open>toFormat\<close> prints as 123,456,789.012345678.
\<close>

theorem convertToDecimal_exact:
  "0 \<le> raw \<Longrightarrow> 0 \<le> d \<Longrightarrow>
     bn_val (convertToDecimal raw d) = Some (of_int raw / 10 ^ nat d)
     \<and> bn_val (convertToDecimal 123456789012345678 9) = Some (123456789012345678 / 10 ^ 9)
     \<and> toFormat (convertToDecimal 123456789012345678 9) = ''123,456,789.012345678''"
proof -
  assume "0 \<le> raw" and d: "0 \<le> d"
  have g: "bn_val (convertToDecimal n k) = Some (of_int n / 10 ^ nat k)" if "0 \<le> k" for n k
    using that by (simp add: convertToDecimal_BN scale_down)
  have "bn_val (convertToDecimal 123456789012345678 9) = Some (123456789012345678 / 10 ^ 9)"
    using g [of 9 123456789012345678] by (simp only: of_int_numeral nat_numeral)
  moreover have "toFormat (convertToDecimal 123456789012345678 9) = ''123,456,789.012345678''"
    by (simp add: convertToDecimal_BN format_eval)
  ultimately show ?thesis using g [OF d] by (simp only: simp_thms)
qed

theorem convertToDecimal_exact_witness:
  "(0::int) \<le> 1500 \<and> (0::int) \<le> 3
     \<and> bn_val (convertToDecimal 1500 3) = Some (3 / 2)"
  using convertToDecimal_exact [of 1500 3] by simp

text \<open>
  C7. For a mint with six decimals and a raw total supply of 1000000000000, the string
  that \<open>getTokenDetails\<close> puts in \<open>totalSupply\<close> is 1,000,000: the six decimal places
  applied and the integer digits grouped by three.
\<close>

theorem formatted_supply_million:
  "PublicKey_valid w a \<Longrightarrow> getMint w a = Some m \<Longrightarrow> mint_decimals m = 6 \<Longrightarrow>
   mint_supply m = 1000000000000 \<Longrightarrow>
     map_option totalSupply (fst (getTokenDetails w a)) = Some ''1,000,000''"
proof -
  assume v: "PublicKey_valid w a" and m: "getMint w a = Some m"
    and d: "mint_decimals m = 6" and s: "mint_supply m = 1000000000000"
  from run_of_mint [OF v m] obtain r cs where run: "getTokenDetails w a = (Some r, cs)" by blast
  from result_of_run(2) [OF run] m d s have "totalSupply r = ''1,000,000''"
    by (auto simp only: format_million TokenDetails.select_convs option.inject)
  with run show ?thesis by simp
qed

theorem formatted_supply_million_witness:
  "PublicKey_valid sample_world ''MINT'' \<and> getMint sample_world ''MINT'' = Some sample_mint
   \<and> mint_decimals sample_mint = 6 \<and> mint_supply sample_mint = 1000000000000
   \<and> map_option totalSupply (fst (getTokenDetails sample_world ''MINT'')) = Some ''1,000,000''"
  using formatted_supply_million [of sample_world "''MINT''" sample_mint]
  by (simp add: sample_world_def sample_mint_def)

section \<open>The required lookup and the address check\<close>

text \<open>
  C1. When the mint lookup fails, \<open>getTokenDetails\<close> returns no details, whatever the
  Metaplex client, the off-chain document and the market endpoints would have
  answered; after the address check the mint lookup is the only call made.
\<close>

theorem mint_failure_no_result:
  "getMint w a = None \<Longrightarrow>
     getTokenDetails w a = (None, if PublicKey_valid w a then [RpcGetMint a] else [])"
  by (simp add: getTokenDetails_def)

theorem mint_failure_no_result_witness:
  "getMint mintless_world ''MINT'' = None
   \<and> findByMint mintless_world ''MINT'' \<noteq> None
   \<and> get_price mintless_world (price_endpoint ''MINT'') = Resolved (Some (Num (5 / 2)))
   \<and> getTokenDetails mintless_world ''MINT'' = (None, [RpcGetMint ''MINT''])"
  using mint_failure_no_result [of mintless_world "''MINT''"]
  by (simp add: mintless_world_def sample_world_def)

text \<open>
  C8. An address that \<^verbatim>\<open>new PublicKey\<close> refuses ends the run at once: \<open>getTokenDetails\<close>
  returns no details and \<open>main\<close> exits with code 1, and in both the list of network
  calls is empty.
\<close>

theorem invalid_address_no_network:
  "\<not> PublicKey_valid w a \<Longrightarrow>
     getTokenDetails w a = (None, []) \<and> main w (Some a) = (Exit1, [])"
  by (simp add: getTokenDetails_def main_def)

theorem invalid_address_no_network_witness:
  "\<not> PublicKey_valid sample_world ''not an address''
   \<and> getMint sample_world ''not an address'' \<noteq> None
   \<and> getTokenDetails sample_world ''not an address'' = (None, [])
   \<and> main sample_world (Some ''not an address'') = (Exit1, [])"
  using invalid_address_no_network [of sample_world "''not an address''"]
  by (simp add: sample_world_def)

section \<open>Descriptive metadata\<close>

text \<open>
  C4. When the mint lookup succeeds and the Metaplex lookup fails, details are still
  returned: the image is unset, the decimals, the raw supply and the formatted supply
  come from the mint, and the name and the symbol are not empty but carry a
  placeholder, N/A for the symbol.
\<close>

theorem metadata_failure_sentinels:
  "PublicKey_valid w a \<Longrightarrow> getMint w a = Some m \<Longrightarrow> findByMint w a = None \<Longrightarrow>
     (\<exists>r cs. getTokenDetails w a = (Some r, cs)
        \<and> truthy_string (name r) \<and> symbol r = Some ''N/A'' \<and> imageURL r = None
        \<and> decimals r = mint_decimals m \<and> totalSupplyRaw r = mint_supply m
        \<and> totalSupply r = toFormat (convertToDecimal (mint_supply m) (mint_decimals m)))"
proof -
  assume v: "PublicKey_valid w a" and m: "getMint w a = Some m" and f: "findByMint w a = None"
  from run_of_mint [OF v m] obtain r cs where run: "getTokenDetails w a = (Some r, cs)" by blast
  from result_of_run(2) [OF run] m metadata_step_no_record [OF f]
  have "truthy_string (name r) \<and> symbol r = Some ''N/A'' \<and> imageURL r = None
        \<and> decimals r = mint_decimals m \<and> totalSupplyRaw r = mint_supply m
        \<and> totalSupply r = toFormat (convertToDecimal (mint_supply m) (mint_decimals m))"
    by (auto simp: or_else_def)
  with run show ?thesis by blast
qed

theorem metadata_failure_sentinels_witness:
  "PublicKey_valid no_metadata_world ''MINT'' \<and> getMint no_metadata_world ''MINT'' = Some sample_mint
   \<and> findByMint no_metadata_world ''MINT'' = None
   \<and> (\<exists>r cs. getTokenDetails no_metadata_world ''MINT'' = (Some r, cs)
        \<and> symbol r = Some ''N/A'' \<and> imageURL r = None \<and> decimals r = 6
        \<and> totalSupplyRaw r = 1000000000000 \<and> totalSupply r = ''1,000,000'')"
proof -
  have h: "PublicKey_valid no_metadata_world ''MINT''"
    "getMint no_metadata_world ''MINT'' = Some sample_mint"
    "findByMint no_metadata_world ''MINT'' = None"
    by (simp_all add: no_metadata_world_def sample_world_def)
  from metadata_failure_sentinels [OF h] h format_million show ?thesis
    by (auto simp: sample_mint_def)
qed

text \<open>
  With no Metaplex record the returned name and symbol are the placeholder strings, not
  empty ones.
\<close>

theorem metadata_failure_counterexample:
  "getMint no_metadata_world ''MINT'' = Some sample_mint
   \<and> findByMint no_metadata_world ''MINT'' = None
   \<and> map_option name (fst (getTokenDetails no_metadata_world ''MINT'')) = Some (Some ''N?A'')
   \<and> map_option symbol (fst (getTokenDetails no_metadata_world ''MINT'')) = Some (Some ''N/A'')
   \<and> map_option name (fst (getTokenDetails no_metadata_world ''MINT'')) \<noteq> Some None
   \<and> map_option name (fst (getTokenDetails no_metadata_world ''MINT'')) \<noteq> Some (Some [])
   \<and> map_option symbol (fst (getTokenDetails no_metadata_world ''MINT'')) \<noteq> Some None
   \<and> map_option symbol (fst (getTokenDetails no_metadata_world ''MINT'')) \<noteq> Some (Some [])"
  by (simp add: getTokenDetails_def no_metadata_world_def sample_world_def metadata_step_def
      overview_step_def or_else_def Let_def)

text \<open>
  C5. When the Metaplex lookup succeeds and the fetch of the pointer is rejected, or its
  body is null or has none of the three fields, the three variables keep what the lookup
  assigned; a non-empty name and a non-empty symbol from the Metaplex record are
  returned unchanged and the image stays unset.
\<close>

theorem offchain_failure_keeps_onchain:
  "getTokenDetails w a = (Some r, cs) \<Longrightarrow> findByMint w a = Some nft \<Longrightarrow> nft_uri nft \<noteq> [] \<Longrightarrow>
   get_metadata_json w (nft_uri nft) = Rejected \<or> get_metadata_json w (nft_uri nft) = Resolved None
     \<or> get_metadata_json w (nft_uri nft) =
         Resolved (Some \<lparr> json_image = None, json_name = None, json_symbol = None \<rparr>) \<Longrightarrow>
     fst (metadata_step w a) = (Some (nft_name nft), Some (nft_symbol nft), None)
     \<and> (nft_name nft \<noteq> [] \<longrightarrow> name r = Some (nft_name nft))
     \<and> (nft_symbol nft \<noteq> [] \<longrightarrow> symbol r = Some (nft_symbol nft))
     \<and> imageURL r = None"
proof -
  assume run: "getTokenDetails w a = (Some r, cs)" and f: "findByMint w a = Some nft"
    and u: "nft_uri nft \<noteq> []"
    and j: "get_metadata_json w (nft_uri nft) = Rejected \<or> get_metadata_json w (nft_uri nft) = Resolved None
     \<or> get_metadata_json w (nft_uri nft) =
         Resolved (Some \<lparr> json_image = None, json_name = None, json_symbol = None \<rparr>)"
  from result_of_run(2) [OF run] metadata_step_no_document [OF f u j]
  show ?thesis by (auto simp: or_else_def)
qed

theorem offchain_failure_keeps_onchain_witness:
  "map_option name (fst (getTokenDetails dead_link_world ''MINT'')) = Some (Some ''Token'')
   \<and> map_option symbol (fst (getTokenDetails dead_link_world ''MINT'')) = Some (Some ''TKN'')
   \<and> map_option imageURL (fst (getTokenDetails dead_link_world ''MINT'')) = Some None"
proof -
  obtain r cs where run: "getTokenDetails dead_link_world ''MINT'' = (Some r, cs)"
    using run_of_mint [of dead_link_world "''MINT''" sample_mint]
    by (auto simp: dead_link_world_def sample_world_def)
  have f: "findByMint dead_link_world ''MINT'' =
      Some \<lparr> nft_name = ''Token'', nft_symbol = ''TKN'', nft_uri = ''https://example.org/t.json'' \<rparr>"
    by (simp add: dead_link_world_def sample_world_def)
  from offchain_failure_keeps_onchain [OF run f] run show ?thesis
    by (simp add: dead_link_world_def sample_world_def)
qed

text \<open>
  An empty on-chain name is not returned as it is: with the fetch rejected, the
  returned name is the placeholder.
\<close>

theorem offchain_failure_counterexample:
  "findByMint blank_name_world ''MINT'' =
     Some \<lparr> nft_name = [], nft_symbol = ''TKN'', nft_uri = ''https://example.org/t.json'' \<rparr>
   \<and> get_metadata_json blank_name_world ''https://example.org/t.json'' = Rejected
   \<and> map_option name (fst (getTokenDetails blank_name_world ''MINT'')) = Some (Some ''N?A'')
   \<and> map_option name (fst (getTokenDetails blank_name_world ''MINT'')) \<noteq> Some (Some [])"
  by (simp add: getTokenDetails_def blank_name_world_def sample_world_def metadata_step_def
      overview_step_def or_else_def Let_def)

text \<open>
  C6. When the Metaplex lookup and the fetch of the document both succeed, a non-empty
  on-chain name or symbol is returned as it is, whatever the document says; the
  document's name or symbol is taken only for a field the Metaplex record left empty.
\<close>

theorem onchain_fields_not_overwritten:
  "getTokenDetails w a = (Some r, cs) \<Longrightarrow> findByMint w a = Some nft \<Longrightarrow> nft_uri nft \<noteq> [] \<Longrightarrow>
   get_metadata_json w (nft_uri nft) = Resolved (Some data) \<Longrightarrow>
     (nft_name nft \<noteq> [] \<longrightarrow> name r = Some (nft_name nft))
     \<and> (nft_symbol nft \<noteq> [] \<longrightarrow> symbol r = Some (nft_symbol nft))
     \<and> (nft_name nft = [] \<and> truthy_string (json_name data) \<longrightarrow> name r = json_name data)
     \<and> (nft_symbol nft = [] \<and> truthy_string (json_symbol data) \<longrightarrow> symbol r = json_symbol data)"
proof -
  assume run: "getTokenDetails w a = (Some r, cs)" and f: "findByMint w a = Some nft"
    and u: "nft_uri nft \<noteq> []" and j: "get_metadata_json w (nft_uri nft) = Resolved (Some data)"
  from result_of_run(2) [OF run] metadata_step_document [OF f u j]
  show ?thesis by (auto simp: or_else_def)
qed

theorem onchain_fields_not_overwritten_witness:
  "map_option name (fst (getTokenDetails gap_world ''MINT'')) = Some (Some ''Token'')
   \<and> map_option symbol (fst (getTokenDetails gap_world ''MINT'')) = Some (Some ''OFF'')"
proof -
  obtain r cs where run: "getTokenDetails gap_world ''MINT'' = (Some r, cs)"
    using run_of_mint [of gap_world "''MINT''" sample_mint]
    by (auto simp: gap_world_def sample_world_def)
  have f: "findByMint gap_world ''MINT'' =
      Some \<lparr> nft_name = ''Token'', nft_symbol = [], nft_uri = ''https://example.org/t.json'' \<rparr>"
    by (simp add: gap_world_def sample_world_def)
  have j: "get_metadata_json gap_world ''https://example.org/t.json'' =
      Resolved (Some \<lparr> json_image = Some ''https://example.org/t.png'',
                        json_name = Some ''Offchain'', json_symbol = Some ''OFF'' \<rparr>)"
    by (simp add: gap_world_def sample_world_def)
  from onchain_fields_not_overwritten [OF run f] j run show ?thesis
    by simp
qed

section \<open>Price and market capitalisation\<close>




text \<open>
  C10. When the price endpoint answers with the value 0, or with any falsy value, the
  returned record has neither price nor market capitalisation, and a run with the value
  0 returns what a run with an answer without a value, or with no answer, returns.
\<close>

theorem zero_price_unset:
  "getTokenDetails w a = (Some r, cs) \<Longrightarrow> get_price w (price_endpoint a) = Resolved v \<Longrightarrow>
   v = Some (Num 0) \<or> \<not> truthy v \<Longrightarrow>
     price r = None \<and> marketcCap r = None
     \<and> getTokenDetails (w \<lparr> get_price := (\<lambda>u. Resolved (Some (Num 0))) \<rparr>) a
         = getTokenDetails (w \<lparr> get_price := (\<lambda>u. Resolved None) \<rparr>) a
     \<and> getTokenDetails (w \<lparr> get_price := (\<lambda>u. Resolved (Some (Num 0))) \<rparr>) a
         = getTokenDetails (w \<lparr> get_price := (\<lambda>u. Rejected) \<rparr>) a"
proof -
  assume run: "getTokenDetails w a = (Some r, cs)" and g: "get_price w (price_endpoint a) = Resolved v"
    and z: "v = Some (Num 0) \<or> \<not> truthy v"
  from z have "\<not> truthy v" by auto
  with g have "price_step w a = None" by (simp add: price_step_def)
  with result_of_run(2) [OF run] have "price r = None \<and> marketcCap r = None"
    by (auto simp: marketCap_step_def)
  moreover have "getTokenDetails (w \<lparr> get_price := (\<lambda>u. Resolved (Some (Num 0))) \<rparr>) a
         = getTokenDetails (w \<lparr> get_price := (\<lambda>u. Resolved None) \<rparr>) a"
    by (simp add: getTokenDetails_def steps_ignore_price price_step_falsy split: option.splits)
  moreover have "getTokenDetails (w \<lparr> get_price := (\<lambda>u. Resolved (Some (Num 0))) \<rparr>) a
         = getTokenDetails (w \<lparr> get_price := (\<lambda>u. Rejected) \<rparr>) a"
    by (simp add: getTokenDetails_def steps_ignore_price price_step_falsy split: option.splits)
  ultimately show ?thesis by simp
qed

theorem zero_price_unset_witness:
  "get_price zero_price_world (price_endpoint ''MINT'') = Resolved (Some (Num 0))
   \<and> map_option price (fst (getTokenDetails zero_price_world ''MINT'')) = Some None
   \<and> map_option marketcCap (fst (getTokenDetails zero_price_world ''MINT'')) = Some None
   \<and> map_option liquidityUsd (fst (getTokenDetails zero_price_world ''MINT'')) = Some (Some (Num 1000))"
proof -
  obtain r cs where run: "getTokenDetails zero_price_world ''MINT'' = (Some r, cs)"
    using run_of_mint [of zero_price_world "''MINT''" sample_mint]
    by (auto simp: zero_price_world_def sample_world_def)
  have g: "get_price zero_price_world (price_endpoint ''MINT'') = Resolved (Some (Num 0))"
    by (simp add: zero_price_world_def sample_world_def)
  from result_of_run(2) [OF run] have "liquidityUsd r = Some (Num 1000)"
    by (auto simp: zero_price_world_def sample_world_def overview_step_def)
  with zero_price_unset [OF run g] g run show ?thesis by simp
qed


text \<open>
  C9. The raw supply stays an integer up to \<open>convertToDecimal\<close>. The price is read as the
  decimal \<open>c * 10^e\<close> that \<^verbatim>\<open>String\<close> prints, which for a price that is a finite double
  converts back to that price and has it as a nearest double, and the product of the
  decimal supply and this decimal is exact in the decimal library. The market
  capitalisation is that exact product after \<^verbatim>\<open>toNumber\<close>, a native double: when the
  product is below \<open>2^1024 - 2^970\<close> in magnitude, a finite double within the fraction
  \<open>2^-53\<close> of the product, or within half the smallest positive double of it; from
  there on, the infinity of the product's sign.
\<close>

theorem marketCap_exact_until_toNumber:
  "getTokenDetails w a = (Some r, cs) \<Longrightarrow> getMint w a = Some m \<Longrightarrow> price r = Some (Num p) \<Longrightarrow>
     totalSupplyRaw r = mint_supply m
     \<and> (\<exists>c e x. BigNumber_of_number (Num p) = BN c e
          \<and> (finite_double p \<longrightarrow>
                toNumber (BN c e) = Num p \<and> nearest_double (of_int c * 10 powi e) p)
          \<and> x = (of_int (mint_supply m) * 10 powi (- mint_decimals m)) * (of_int c * 10 powi e)
          \<and> bn_val (multipliedBy (convertToDecimal (totalSupplyRaw r) (decimals r)) (Num p)) = Some x
          \<and> marketcCap r
              = Some (toNumber (multipliedBy (convertToDecimal (totalSupplyRaw r) (decimals r)) (Num p)))
          \<and> (if \<bar>x\<bar> < overflow_threshold
              then \<exists>y. marketcCap r = Some (Num y) \<and> finite_double y
                     \<and> (\<bar>y - x\<bar> \<le> \<bar>x\<bar> / 2 ^ 53 \<or> \<bar>y - x\<bar> \<le> half_denorm_min)
              else marketcCap r = Some (Infinity (x < 0))))"
proof -
  assume run: "getTokenDetails w a = (Some r, cs)" and m: "getMint w a = Some m"
    and p: "price r = Some (Num p)"
  from result_of_run(2) [OF run] m
  have raw: "totalSupplyRaw r = mint_supply m" and dec: "decimals r = mint_decimals m"
    and cap: "marketcCap r = marketCap_step (price r) (totalSupplyRaw r) (decimals r)"
    by auto
  obtain c e where ce: "BigNumber_of_number (Num p) = BN c e"
    using BigNumber_of_finite by blast
  define x :: rat where
    "x = (of_int (mint_supply m) * 10 powi (- mint_decimals m)) * (of_int c * 10 powi e)"
  have prod: "multipliedBy (convertToDecimal (totalSupplyRaw r) (decimals r)) (Num p)
      = BN (mint_supply m * c) (- mint_decimals m + e)"
    by (simp only: product_value(1) [OF ce] raw dec)
  have xv: "of_int (mint_supply m * c) * 10 powi (- mint_decimals m + e) = x"
    unfolding x_def by (rule product_value(2) [OF ce])
  have val: "bn_val (multipliedBy (convertToDecimal (totalSupplyRaw r) (decimals r)) (Num p)) = Some x"
    by (simp only: prod bn_val.simps xv)
  from cap p have capv: "marketcCap r
      = Some (toNumber (multipliedBy (convertToDecimal (totalSupplyRaw r) (decimals r)) (Num p)))"
    by (simp add: marketCap_step_def)
  have readback: "finite_double p \<longrightarrow>
      toNumber (BN c e) = Num p \<and> nearest_double (of_int c * 10 powi e) p"
    using price_read_back [OF _ ce] by (intro impI conjI)
  have res: "if \<bar>x\<bar> < overflow_threshold
              then \<exists>y. marketcCap r = Some (Num y) \<and> finite_double y
                     \<and> (\<bar>y - x\<bar> \<le> \<bar>x\<bar> / 2 ^ 53 \<or> \<bar>y - x\<bar> \<le> half_denorm_min)
              else marketcCap r = Some (Infinity (x < 0))"
  proof (cases "\<bar>x\<bar> < overflow_threshold")
    case True
    then have "\<bar>of_int (mint_supply m * c) * 10 powi (- mint_decimals m + e)\<bar> < overflow_threshold"
      by (simp only: xv)
    from toNumber_below_threshold [OF this] obtain y where
      y: "toNumber (BN (mint_supply m * c) (- mint_decimals m + e)) = Num y" by blast
    from toNumber_finite [OF y] have fy: "finite_double y" by (simp only: nearest_double_def)
    from toNumber_error [OF y]
    have "\<bar>y - x\<bar> \<le> \<bar>x\<bar> / 2 ^ 53 \<or> \<bar>y - x\<bar> \<le> half_denorm_min" by (simp only: xv)
    moreover from y capv have "marketcCap r = Some (Num y)" by (simp only: prod)
    ultimately have "\<exists>y. marketcCap r = Some (Num y) \<and> finite_double y
                     \<and> (\<bar>y - x\<bar> \<le> \<bar>x\<bar> / 2 ^ 53 \<or> \<bar>y - x\<bar> \<le> half_denorm_min)"
      using fy by (intro exI [of _ y] conjI)
    with True show ?thesis by (simp only: if_True)
  next
    case False
    then have "overflow_threshold \<le> \<bar>of_int (mint_supply m * c) * 10 powi (- mint_decimals m + e)\<bar>"
      by (simp only: xv not_less)
    from toNumber_at_threshold [OF this]
    have "toNumber (BN (mint_supply m * c) (- mint_decimals m + e)) = Infinity (x < 0)"
      by (simp only: xv)
    with capv have "marketcCap r = Some (Infinity (x < 0))" by (simp only: prod)
    with False show ?thesis by (simp only: if_False)
  qed
  have "BigNumber_of_number (Num p) = BN c e
          \<and> (finite_double p \<longrightarrow>
                toNumber (BN c e) = Num p \<and> nearest_double (of_int c * 10 powi e) p)
          \<and> x = (of_int (mint_supply m) * 10 powi (- mint_decimals m)) * (of_int c * 10 powi e)
          \<and> bn_val (multipliedBy (convertToDecimal (totalSupplyRaw r) (decimals r)) (Num p)) = Some x
          \<and> marketcCap r
              = Some (toNumber (multipliedBy (convertToDecimal (totalSupplyRaw r) (decimals r)) (Num p)))
          \<and> (if \<bar>x\<bar> < overflow_threshold
              then \<exists>y. marketcCap r = Some (Num y) \<and> finite_double y
                     \<and> (\<bar>y - x\<bar> \<le> \<bar>x\<bar> / 2 ^ 53 \<or> \<bar>y - x\<bar> \<le> half_denorm_min)
              else marketcCap r = Some (Infinity (x < 0)))"
    using ce readback x_def val capv res by (intro conjI)
  then have "\<exists>c e x. BigNumber_of_number (Num p) = BN c e
          \<and> (finite_double p \<longrightarrow>
                toNumber (BN c e) = Num p \<and> nearest_double (of_int c * 10 powi e) p)
          \<and> x = (of_int (mint_supply m) * 10 powi (- mint_decimals m)) * (of_int c * 10 powi e)
          \<and> bn_val (multipliedBy (convertToDecimal (totalSupplyRaw r) (decimals r)) (Num p)) = Some x
          \<and> marketcCap r
              = Some (toNumber (multipliedBy (convertToDecimal (totalSupplyRaw r) (decimals r)) (Num p)))
          \<and> (if \<bar>x\<bar> < overflow_threshold
              then \<exists>y. marketcCap r = Some (Num y) \<and> finite_double y
                     \<and> (\<bar>y - x\<bar> \<le> \<bar>x\<bar> / 2 ^ 53 \<or> \<bar>y - x\<bar> \<le> half_denorm_min)
              else marketcCap r = Some (Infinity (x < 0)))"
    by (intro exI [of _ c] exI [of _ e] exI [of _ x])
  with raw show ?thesis by (intro conjI)
qed

theorem marketCap_exact_until_toNumber_witness:
  "(map_option totalSupplyRaw (fst (getTokenDetails sample_world ''MINT'')) = Some 1000000000000
    \<and> finite_double (5 / 2)
    \<and> BigNumber_of_number (Num (5 / 2)) = BN 25 (- 1)
    \<and> toNumber (BN 25 (- 1)) = Num (5 / 2)
    \<and> bn_val (multipliedBy (convertToDecimal 1000000000000 6) (Num (5 / 2))) = Some 2500000
    \<and> \<bar>2500000\<bar> < overflow_threshold
    \<and> map_option marketcCap (fst (getTokenDetails sample_world ''MINT'')) = Some (Some (Num 2500000))
    \<and> finite_double 2500000)
   \<and> (map_option totalSupplyRaw (fst (getTokenDetails overflow_world ''MINT'')) = Some 100
    \<and> finite_double (5010420900022432 * 2 ^ 971)
    \<and> BigNumber_of_number (Num (5010420900022432 * 2 ^ 971)) = BN 1 308
    \<and> toNumber (BN 1 308) = Num (5010420900022432 * 2 ^ 971)
    \<and> bn_val (multipliedBy (convertToDecimal 100 0) (Num (5010420900022432 * 2 ^ 971))) = Some (10 ^ 310)
    \<and> overflow_threshold \<le> \<bar>10 ^ 310\<bar>
    \<and> map_option marketcCap (fst (getTokenDetails overflow_world ''MINT'')) = Some (Some (Infinity False)))"
proof -
  have A: "map_option totalSupplyRaw (fst (getTokenDetails sample_world ''MINT'')) = Some 1000000000000
    \<and> finite_double (5 / 2)
    \<and> BigNumber_of_number (Num (5 / 2)) = BN 25 (- 1)
    \<and> toNumber (BN 25 (- 1)) = Num (5 / 2)
    \<and> bn_val (multipliedBy (convertToDecimal 1000000000000 6) (Num (5 / 2))) = Some 2500000
    \<and> \<bar>2500000\<bar> < overflow_threshold
    \<and> map_option marketcCap (fst (getTokenDetails sample_world ''MINT'')) = Some (Some (Num 2500000))
    \<and> finite_double 2500000"
  proof -
    obtain r cs where run: "getTokenDetails sample_world ''MINT'' = (Some r, cs)"
      using run_of_mint [of sample_world "''MINT''" sample_mint] by (auto simp: sample_world_def)
    have m: "getMint sample_world ''MINT'' = Some sample_mint" by (simp add: sample_world_def)
    from result_of_run(2) [OF run]
    have p: "price r = Some (Num (5 / 2))" and d: "decimals r = 6"
      by (auto simp: sample_world_def sample_mint_def price_step_def)
    have fd: "finite_double (5 / 2)" by (rule finite_double_5_2)
    have small: "\<bar>2500000\<bar> < overflow_threshold" by (simp add: overflow_threshold_def)
    have v: "bn_val (multipliedBy (convertToDecimal 1000000000000 6) (Num (5 / 2))) = Some 2500000"
      by (simp only: multipliedBy_def convertToDecimal_BN BigNumber_of_5_2 times_big.simps) simp
    from marketCap_exact_until_toNumber [OF run m p]
    obtain c e x where raw: "totalSupplyRaw r = mint_supply sample_mint"
      and ce: "BigNumber_of_number (Num (5 / 2)) = BN c e"
      and readback: "finite_double (5 / 2) \<longrightarrow> toNumber (BN c e) = Num (5 / 2)
                   \<and> nearest_double (of_int c * 10 powi e) (5 / 2)"
      and val: "bn_val (multipliedBy (convertToDecimal (totalSupplyRaw r) (decimals r)) (Num (5 / 2))) = Some x"
      and res: "if \<bar>x\<bar> < overflow_threshold
                then \<exists>y. marketcCap r = Some (Num y) \<and> finite_double y
                       \<and> (\<bar>y - x\<bar> \<le> \<bar>x\<bar> / 2 ^ 53 \<or> \<bar>y - x\<bar> \<le> half_denorm_min)
                else marketcCap r = Some (Infinity (x < 0))"
      and cap: "marketcCap r
        = Some (toNumber (multipliedBy (convertToDecimal (totalSupplyRaw r) (decimals r)) (Num (5 / 2))))"
      by blast
    from raw have raw': "totalSupplyRaw r = 1000000000000" by (simp add: sample_mint_def)
    from ce have c: "c = 25" and e: "e = - 1" by (simp_all only: BigNumber_of_5_2 BigNumber.inject)
    from readback fd have t: "toNumber (BN 25 (- 1)) = Num (5 / 2)" by (simp only: c e)
    from val v have x: "x = 2500000" by (simp only: raw' d option.inject)
    from res small obtain y where y: "marketcCap r = Some (Num y)" and fy: "finite_double y"
      unfolding x by (simp only: if_True) blast
    from cap have "marketcCap r = Some (Num 2500000)"
      using cap_million [of 6] by (simp only: raw' d) simp
    with y fy have "finite_double 2500000" by simp
    with raw' fd BigNumber_of_5_2 t v small \<open>marketcCap r = Some (Num 2500000)\<close> run
    show ?thesis by simp
  qed
  have B: "map_option totalSupplyRaw (fst (getTokenDetails overflow_world ''MINT'')) = Some 100
    \<and> finite_double (5010420900022432 * 2 ^ 971)
    \<and> BigNumber_of_number (Num (5010420900022432 * 2 ^ 971)) = BN 1 308
    \<and> toNumber (BN 1 308) = Num (5010420900022432 * 2 ^ 971)
    \<and> bn_val (multipliedBy (convertToDecimal 100 0) (Num (5010420900022432 * 2 ^ 971))) = Some (10 ^ 310)
    \<and> overflow_threshold \<le> \<bar>10 ^ 310\<bar>
    \<and> map_option marketcCap (fst (getTokenDetails overflow_world ''MINT'')) = Some (Some (Infinity False))"
  proof -
    obtain r cs where run: "getTokenDetails overflow_world ''MINT'' = (Some r, cs)"
      using run_of_mint [of overflow_world "''MINT''"]
      by (auto simp: overflow_world_def sample_world_def)
    have m: "getMint overflow_world ''MINT''
        = Some (sample_mint \<lparr> mint_decimals := 0, mint_supply := 100 \<rparr>)"
      by (simp add: overflow_world_def sample_world_def)
    note p = run_overflow_world(1) [OF run] and raw = run_overflow_world(2) [OF run]
      and d = run_overflow_world(3) [OF run]
    have fd: "finite_double (5010420900022432 * 2 ^ 971)" by (rule finite_double_1e308)
    have v: "bn_val (multipliedBy (convertToDecimal 100 0) (Num (5010420900022432 * 2 ^ 971)))
        = Some (10 ^ 310)"
      by (simp only: multipliedBy_def convertToDecimal_BN BigNumber_of_1e308 times_big.simps) simp
    have big: "overflow_threshold \<le> \<bar>10 ^ 310\<bar>" by (simp add: overflow_threshold_def)
    from marketCap_exact_until_toNumber [OF run m p]
    obtain c e x where
      ce: "BigNumber_of_number (Num (5010420900022432 * 2 ^ 971)) = BN c e"
      and readback: "finite_double (5010420900022432 * 2 ^ 971) \<longrightarrow>
                   toNumber (BN c e) = Num (5010420900022432 * 2 ^ 971)
                   \<and> nearest_double (of_int c * 10 powi e) (5010420900022432 * 2 ^ 971)"
      and val: "bn_val (multipliedBy (convertToDecimal (totalSupplyRaw r) (decimals r))
                  (Num (5010420900022432 * 2 ^ 971))) = Some x"
      and res: "if \<bar>x\<bar> < overflow_threshold
                then \<exists>y. marketcCap r = Some (Num y) \<and> finite_double y
                       \<and> (\<bar>y - x\<bar> \<le> \<bar>x\<bar> / 2 ^ 53 \<or> \<bar>y - x\<bar> \<le> half_denorm_min)
                else marketcCap r = Some (Infinity (x < 0))"
      by blast
    from ce have c: "c = 1" and e: "e = 308" by (simp_all only: BigNumber_of_1e308 BigNumber.inject)
    from readback fd have t: "toNumber (BN 1 308) = Num (5010420900022432 * 2 ^ 971)"
      by (simp only: c e)
    from val v have x: "x = 10 ^ 310" by (simp only: raw d option.inject)
    from big have nb: "\<not> \<bar>10 ^ 310 :: rat\<bar> < overflow_threshold" by (simp only: not_less)
    have pos: "\<not> (10 ^ 310 :: rat) < 0" by simp
    from res have "marketcCap r = Some (Infinity False)"
      unfolding x by (simp only: nb pos if_False)
    with raw fd BigNumber_of_1e308 t v big run show ?thesis
      by (simp only: fst_conv option.map simp_thms)
  qed
  from A B show ?thesis by blast
qed

text \<open>
  The conversion rounds: \<open>2^53 + 1\<close> tokens at the price 1 have the exact product
  9007199254740993, and the returned market capitalisation is 9007199254740992.
\<close>

theorem marketCap_rounding_counterexample:
  "map_option price (fst (getTokenDetails odd_supply_world ''MINT'')) = Some (Some (Num 1))
   \<and> bn_val (multipliedBy (convertToDecimal 9007199254740993 0) (Num 1)) = Some 9007199254740993
   \<and> map_option marketcCap (fst (getTokenDetails odd_supply_world ''MINT''))
       = Some (Some (Num 9007199254740992))
   \<and> Num 9007199254740992 \<noteq> Num 9007199254740993"
proof -
  obtain r cs where run: "getTokenDetails odd_supply_world ''MINT'' = (Some r, cs)"
    using run_of_mint [of odd_supply_world "''MINT''"]
    by (auto simp: odd_supply_world_def sample_world_def)
  from result_of_run(2) [OF run]
  have p: "price r = Some (Num 1)"
    and c: "marketcCap r = marketCap_step (Some (Num 1)) 9007199254740993 0"
    by (auto simp: odd_supply_world_def sample_world_def sample_mint_def price_step_def)
  from c have "marketcCap r = Some (Num 9007199254740992)"
    by (simp only: marketCap_step_def option.case cap_odd_supply)
  with p run val_odd_supply show ?thesis by simp
qed

end
